theory Spec2Isabelle
  imports Complex_Main "HOL-Library.Sublist" "HOL-Library.AList"
begin

text \<open>
  A model of \<^verbatim>\<open>script.js\<close>, the image content filtering script: it lists the image files
  under a folder, reads the text of each image, asks a classification service whether the
  text is sensitive, moves flagged images to the subfolder \<^verbatim>\<open>dacy\<close> and crops the others.

  The functions of the script are HOL functions of the same names. The file system is a
  value that the functions take and return; the calls to the outside (OCR engine,
  classification service, image library, file system) are recorded in a trace, and what
  the outside answers is given by an environment, so that every exception the script
  catches is a branch of the model.
\<close>

section \<open>JavaScript numbers\<close>

text \<open>
  Image dimensions are positive integers (far below \<open>2 ^ 53\<close>) held in JavaScript numbers,
  that is IEEE-754 doubles with a 53-bit significand. \<^verbatim>\<open>Math.floor(height * 0.7)\<close> multiplies the integer
  \<open>height\<close> by the double nearest to 0.7, rounds the exact product to the nearest double
  (ties to even) and takes the floor. The literal \<^verbatim>\<open>0.7\<close> is the double
  \<open>6305039478318694 / 2 ^ 53\<close>. The exact product of \<open>h\<close> and that double is
  \<open>h * 6305039478318694 / 2 ^ 53\<close>; all of the arithmetic below is on the numerator.
\<close>

definition double_0_7 :: nat where
  "double_0_7 = 6305039478318694"

text \<open>The number of binary digits of a natural number.\<close>

fun bitlen :: "nat \<Rightarrow> nat" where
  "bitlen n = (if n = 0 then 0 else Suc (bitlen (n div 2)))"

declare bitlen.simps [simp del]

text \<open>
  Rounding a natural number to 53 significant bits, ties to even: the nearest multiple of
  \<open>2 ^ s\<close>, where \<open>s\<close> is the number of bits beyond the 53rd.
\<close>

definition round_double :: "nat \<Rightarrow> nat" where
  "round_double n =
     (if bitlen n \<le> 53 then n
      else let s = bitlen n - 53;
               q = n div 2 ^ s;
               r = n mod 2 ^ s;
               half = 2 ^ (s - 1)
           in if r > half \<or> (r = half \<and> odd q) then (q + 1) * 2 ^ s else q * 2 ^ s)"

text \<open>\<^verbatim>\<open>Math.floor(height * 0.7)\<close> for a natural number \<open>height\<close>.\<close>

definition js_floor_mul_0_7 :: "nat \<Rightarrow> nat" where
  "js_floor_mul_0_7 h = round_double (h * double_0_7) div 2 ^ 53"

section \<open>Strings and paths\<close>

text \<open>
  \<^verbatim>\<open>String.prototype.includes\<close>: the second string occurs in the first as a contiguous
  substring.
\<close>

fun string_includes :: "string \<Rightarrow> string \<Rightarrow> bool" where
  "string_includes [] t = (t = [])"
| "string_includes (c # s) t = (prefix t (c # s) \<or> string_includes s t)"

text \<open>
  \<^verbatim>\<open>String.prototype.toLowerCase\<close> on the letters A to Z. The script compares the result
  with \<^verbatim>\<open>true\<close> and with the five extensions only, and no character outside A to Z
  has a lower case made of the letters of those words.
\<close>

definition toLowerCase :: "string \<Rightarrow> string" where
  "toLowerCase s =
     map (\<lambda>c. case map_of (zip ''ABCDEFGHIJKLMNOPQRSTUVWXYZ'' ''abcdefghijklmnopqrstuvwxyz'') c of
                 Some l \<Rightarrow> l | None \<Rightarrow> c) s"

text \<open>
  \<^verbatim>\<open>path.join\<close>, \<^verbatim>\<open>path.basename\<close> and \<^verbatim>\<open>path.extname\<close> of Node.js on POSIX. A path
  is cut at its separators; \<^verbatim>\<open>normalizeString\<close> drops empty segments and \<^verbatim>\<open>.\<close>, and
  resolves \<^verbatim>\<open>..\<close> against the segment before it (above the start of a relative path it is
  kept); \<^verbatim>\<open>path.normalize\<close> puts the leading and the trailing separator back.
\<close>

fun split_slash :: "string \<Rightarrow> string list" where
  "split_slash [] = [[]]"
| "split_slash (c # cs) =
     (if c = CHR ''/'' then [] # split_slash cs
      else (case split_slash cs of [] \<Rightarrow> [[c]] | seg # segs \<Rightarrow> (c # seg) # segs))"

fun join_slash :: "string list \<Rightarrow> string" where
  "join_slash [] = []"
| "join_slash [seg] = seg"
| "join_slash (seg # segs) = seg @ ''/'' @ join_slash segs"

fun normalizeString :: "bool \<Rightarrow> string list \<Rightarrow> string list \<Rightarrow> string list" where
  "normalizeString allowAboveRoot res [] = rev res"
| "normalizeString allowAboveRoot res (seg # segs) =
     (if seg = [] \<or> seg = ''.'' then normalizeString allowAboveRoot res segs
      else if seg = ''..'' then
        (case res of
           [] \<Rightarrow> normalizeString allowAboveRoot (if allowAboveRoot then [''..''] else []) segs
         | lastSegment # res' \<Rightarrow>
             if lastSegment \<noteq> ''..'' then normalizeString allowAboveRoot res' segs
             else normalizeString allowAboveRoot
                    (if allowAboveRoot then ''..'' # res else res) segs)
      else normalizeString allowAboveRoot (seg # res) segs)"

definition path_normalize :: "string \<Rightarrow> string" where
  "path_normalize path =
     (if path = [] then ''.''
      else let isAbsolute = (hd path = CHR ''/'');
               trailingSeparator = (last path = CHR ''/'');
               p = join_slash (normalizeString (\<not> isAbsolute) [] (split_slash path))
           in if p = [] then (if isAbsolute then ''/'' else if trailingSeparator then ''./'' else ''.'')
              else (if isAbsolute then ''/'' else []) @ p @ (if trailingSeparator then ''/'' else []))"

definition path_join :: "string \<Rightarrow> string \<Rightarrow> string" where
  "path_join a b =
     (if a = [] \<and> b = [] then ''.''
      else path_normalize (if a = [] then b else if b = [] then a else a @ ''/'' @ b))"

text \<open>
  The last segment of a path, trailing separators ignored, and its extension: from the
  last dot on, and empty when there is no dot, when the only dot is the first character,
  or when the segment is \<^verbatim>\<open>..\<close>.
\<close>

definition path_basename :: "string \<Rightarrow> string" where
  "path_basename path =
     rev (takeWhile (\<lambda>c. c \<noteq> CHR ''/'') (dropWhile (\<lambda>c. c = CHR ''/'') (rev path)))"

definition path_extname :: "string \<Rightarrow> string" where
  "path_extname path =
     (let base = path_basename path;
          after = takeWhile (\<lambda>c. c \<noteq> CHR ''.'') (rev base)
      in if CHR ''.'' \<notin> set base \<or> Suc (length after) = length base \<or> base = ''..'' then []
         else CHR ''.'' # rev after)"


section \<open>The file system and the external services\<close>

text \<open>
  The argument of sharp's \<^verbatim>\<open>extract\<close>: \<^verbatim>\<open>{ left, top, width, height }\<close>.
\<close>

record region =
  rg_left :: nat
  rg_top :: nat
  rg_width :: nat
  rg_height :: nat

text \<open>
  Pixels are not modelled. An image is a rectangular window on a named picture: where the
  window starts and how wide and high it is. A file holds an image or bytes that the image
  library cannot decode.
\<close>

record image =
  picture :: string
  offset_x :: nat
  offset_y :: nat
  img_width :: nat
  img_height :: nat

datatype content = Image image | Bytes string

text \<open>
  The file system: the files and directories by their paths, as the script spells them,
  in directory order.
\<close>

datatype entry = File content | Directory

type_synonym filesystem = "(string \<times> entry) list"

text \<open>
  What a call can throw. The script only logs the message of what it catches, so a few
  errors are enough: those of the file system, an input/output fault, the exhausted call
  stack, an image that sharp cannot read or cut, and the OpenAI client that cannot be
  constructed.
\<close>

datatype error = ENOENT | EEXIST | EISDIR | ENOTDIR | EIO | RangeError | SharpError
  | OpenAIError

text \<open>
  The calls that reach outside the script, in the order they are made: the OCR of a file,
  a chat completion request with its user prompt, a timer, the metadata read and the
  extraction of sharp, and the file operations.
\<close>

datatype event =
    Recognize string
  | ChatCompletion string
  | SetTimeout nat
  | Metadata string
  | ExtractToFile string region string
  | RenameSync string string
  | UnlinkSync string
  | CopyFileSync string string
  | MkdirSync string

text \<open>
  An answer of the classification service: the request is rejected (network, credentials,
  quota), or it returns the \<^verbatim>\<open>content\<close> of the message of each choice, \<open>None\<close> where there
  is no string to read.
\<close>

datatype api_response = Rejected | Response "string option list"

text \<open>
  The environment of a run. Each answer may depend on the moment of the call, which is
  the number of calls made so far: what the OCR engine reads in a file (\<open>None\<close> when it
  throws), what the classification service answers to a prompt, and which calls fail for
  a reason outside the model (permissions, a full disk). \<open>stack_depth\<close> bounds the nesting
  of directories that the recursion of getAllFiles can follow. \<open>api_key\<close> says whether the
  credentials are there that the constructor of the OpenAI client needs.
\<close>

record env =
  api_key :: bool
  tesseract :: "nat \<Rightarrow> content \<Rightarrow> string option"
  openai :: "nat \<Rightarrow> string \<Rightarrow> api_response"
  io_fault :: "nat \<Rightarrow> event \<Rightarrow> bool"
  stack_depth :: nat

record world =
  disk :: filesystem
  trace :: "event list"

definition now :: "world \<Rightarrow> nat" where
  "now w = length (trace w)"

definition emit :: "event \<Rightarrow> world \<Rightarrow> world" where
  "emit ev w = w\<lparr>trace := trace w @ [ev]\<rparr>"

text \<open>
  A name that a directory entry can have, and the paths that are entries of a directory:
  those that \<^verbatim>\<open>path.join\<close> builds from the directory and their own last segment.
\<close>

definition valid_name :: "string \<Rightarrow> bool" where
  "valid_name name \<longleftrightarrow> name \<noteq> [] \<and> name \<noteq> ''.'' \<and> name \<noteq> ''..'' \<and> CHR ''/'' \<notin> set name"

definition child_of :: "string \<Rightarrow> string \<Rightarrow> bool" where
  "child_of dir p \<longleftrightarrow>
     p \<noteq> dir \<and> valid_name (path_basename p) \<and> path_join dir (path_basename p) = p"

definition existsSync :: "filesystem \<Rightarrow> string \<Rightarrow> bool" where
  "existsSync fs p \<longleftrightarrow> map_of fs p \<noteq> None"

definition readdirSync :: "filesystem \<Rightarrow> string \<Rightarrow> error + string list" where
  "readdirSync fs dirPath =
     (case map_of fs dirPath of
        None \<Rightarrow> Inl ENOENT
      | Some (File c) \<Rightarrow> Inl ENOTDIR
      | Some Directory \<Rightarrow> Inr (map path_basename (filter (child_of dirPath) (map fst fs))))"

definition statSync_isDirectory :: "filesystem \<Rightarrow> string \<Rightarrow> error + bool" where
  "statSync_isDirectory fs p =
     (case map_of fs p of
        None \<Rightarrow> Inl ENOENT
      | Some (File c) \<Rightarrow> Inr False
      | Some Directory \<Rightarrow> Inr True)"

text \<open>
  Reading, writing and removing a file. A new file needs an existing directory to be
  created in (ENOTDIR when its parent is a regular file, ENOENT when there is none);
  writing to an existing file replaces its content.
\<close>

definition has_parent :: "filesystem \<Rightarrow> string \<Rightarrow> bool" where
  "has_parent fs p \<longleftrightarrow> list_ex (\<lambda>(d, e). e = Directory \<and> child_of d p) fs"

definition parent_is_file :: "filesystem \<Rightarrow> string \<Rightarrow> bool" where
  "parent_is_file fs p \<longleftrightarrow> list_ex (\<lambda>(d, e). e \<noteq> Directory \<and> child_of d p) fs"

definition no_parent :: "filesystem \<Rightarrow> string \<Rightarrow> error" where
  "no_parent fs p = (if parent_is_file fs p then ENOTDIR else ENOENT)"

definition read_file :: "filesystem \<Rightarrow> string \<Rightarrow> error + content" where
  "read_file fs p =
     (case map_of fs p of
        None \<Rightarrow> Inl ENOENT
      | Some Directory \<Rightarrow> Inl EISDIR
      | Some (File c) \<Rightarrow> Inr c)"

definition write_file :: "filesystem \<Rightarrow> string \<Rightarrow> content \<Rightarrow> error + filesystem" where
  "write_file fs p c =
     (case map_of fs p of
        Some Directory \<Rightarrow> Inl EISDIR
      | Some (File old) \<Rightarrow> Inr (AList.update p (File c) fs)
      | None \<Rightarrow>
          if has_parent fs p then Inr (AList.update p (File c) fs) else Inl (no_parent fs p))"

definition remove_file :: "filesystem \<Rightarrow> string \<Rightarrow> error + filesystem" where
  "remove_file fs p =
     (case map_of fs p of
        None \<Rightarrow> Inl ENOENT
      | Some Directory \<Rightarrow> Inl EISDIR
      | Some (File c) \<Rightarrow> Inr (AList.delete p fs))"

text \<open>
  The calls of the \<^verbatim>\<open>fs\<close> module with their effects: each is recorded, and fails either
  because the environment says so or because the file system does not allow it; a failed
  call leaves the disk as it was.
\<close>

definition mkdirSync :: "env \<Rightarrow> string \<Rightarrow> world \<Rightarrow> (error + unit) \<times> world" where
  "mkdirSync E p w =
     (let w' = emit (MkdirSync p) w in
      if io_fault E (now w) (MkdirSync p) then (Inl EIO, w')
      else if existsSync (disk w) p then (Inl EEXIST, w')
      else if \<not> has_parent (disk w) p then (Inl (no_parent (disk w) p), w')
      else (Inr (), w'\<lparr>disk := disk w @ [(p, Directory)]\<rparr>))"

definition copyFileSync :: "env \<Rightarrow> string \<Rightarrow> string \<Rightarrow> world \<Rightarrow> (error + unit) \<times> world" where
  "copyFileSync E src dest w =
     (let w' = emit (CopyFileSync src dest) w in
      if io_fault E (now w) (CopyFileSync src dest) then (Inl EIO, w')
      else case read_file (disk w) src of
        Inl e \<Rightarrow> (Inl e, w')
      | Inr c \<Rightarrow>
          (case write_file (disk w) dest c of
             Inl e \<Rightarrow> (Inl e, w')
           | Inr fs' \<Rightarrow> (Inr (), w'\<lparr>disk := fs'\<rparr>)))"

definition unlinkSync :: "env \<Rightarrow> string \<Rightarrow> world \<Rightarrow> (error + unit) \<times> world" where
  "unlinkSync E p w =
     (let w' = emit (UnlinkSync p) w in
      if io_fault E (now w) (UnlinkSync p) then (Inl EIO, w')
      else case remove_file (disk w) p of
        Inl e \<Rightarrow> (Inl e, w')
      | Inr fs' \<Rightarrow> (Inr (), w'\<lparr>disk := fs'\<rparr>))"

definition renameSync :: "env \<Rightarrow> string \<Rightarrow> string \<Rightarrow> world \<Rightarrow> (error + unit) \<times> world" where
  "renameSync E old new w =
     (let w' = emit (RenameSync old new) w in
      if io_fault E (now w) (RenameSync old new) then (Inl EIO, w')
      else case read_file (disk w) old of
        Inl e \<Rightarrow> (Inl e, w')
      | Inr c \<Rightarrow>
          (case write_file (AList.delete old (disk w)) new c of
             Inl e \<Rightarrow> (Inl e, w')
           | Inr fs' \<Rightarrow> (Inr (), w'\<lparr>disk := fs'\<rparr>)))"


section \<open>The crop decision of cropImage\<close>

text \<open>
  What cropImage does once it has read the metadata. The dimensions are natural numbers;
  0 stands for every falsy value of the source (\<^verbatim>\<open>undefined\<close> or 0). The chain of
  conditions is the one of the source, in its order, the third branch included. The
  quotient \<^verbatim>\<open>width / height\<close> of the third condition is taken exactly, over the rationals.
\<close>

datatype crop_action =
    NoDimensions
  | ExtractRegion region
  | DeleteFile
  | NoChange

definition crop_decision :: "nat \<Rightarrow> nat \<Rightarrow> crop_action" where
  "crop_decision width height =
     (if width = 0 \<or> height = 0 then NoDimensions
      else if height \<le> width then
        ExtractRegion \<lparr>rg_left = 0, rg_top = 0, rg_width = width,
                       rg_height = js_floor_mul_0_7 height\<rparr>
      else if height > width then
        ExtractRegion \<lparr>rg_left = 0, rg_top = 0, rg_width = width, rg_height = width\<rparr>
      else if (of_nat width :: rat) / of_nat height > 1 / 2 then DeleteFile
      else NoChange)"

section \<open>The program\<close>

text \<open>
  getAllFiles (lines 37 to 51): the files under a directory, depth first, in directory
  order, appended to \<^verbatim>\<open>arrayOfFiles\<close>. \<^verbatim>\<open>forEach_file\<close> is the callback of \<^verbatim>\<open>forEach\<close>
  over the rest of the listing. The first argument is the number of nested calls left;
  when it is used up the call fails as a stack overflow does.
\<close>

function getAllFiles :: "nat \<Rightarrow> filesystem \<Rightarrow> string \<Rightarrow> string list \<Rightarrow> error + string list"
  and forEach_file :: "nat \<Rightarrow> filesystem \<Rightarrow> string \<Rightarrow> string list \<Rightarrow> string list \<Rightarrow> error + string list"
where
  "getAllFiles 0 fs dirPath arrayOfFiles = Inl RangeError"
| "getAllFiles (Suc depth) fs dirPath arrayOfFiles =
     (case readdirSync fs dirPath of
        Inl e \<Rightarrow> Inl e
      | Inr files \<Rightarrow> forEach_file depth fs dirPath files arrayOfFiles)"
| "forEach_file depth fs dirPath [] arrayOfFiles = Inr arrayOfFiles"
| "forEach_file depth fs dirPath (file # rest) arrayOfFiles =
     (let filePath = path_join dirPath file in
      case statSync_isDirectory fs filePath of
        Inl e \<Rightarrow> Inl e
      | Inr True \<Rightarrow>
          (case getAllFiles depth fs filePath arrayOfFiles of
             Inl e \<Rightarrow> Inl e
           | Inr arrayOfFiles' \<Rightarrow> forEach_file depth fs dirPath rest arrayOfFiles')
      | Inr False \<Rightarrow> forEach_file depth fs dirPath rest (arrayOfFiles @ [filePath]))"
  by pat_completeness auto
termination
  by (relation "measures [
        (\<lambda>x. case x of Inl (d, _) \<Rightarrow> d | Inr (d, _) \<Rightarrow> d),
        (\<lambda>x. case x of Inl _ \<Rightarrow> 0 | Inr _ \<Rightarrow> 1),
        (\<lambda>x. case x of Inl _ \<Rightarrow> 0 | Inr (_, _, _, files, _) \<Rightarrow> length files)]") auto

text \<open>
  performOcr (lines 54 to 62): the recognized text with every newline replaced by a
  space, and the empty string when the engine throws.
\<close>

definition performOcr :: "env \<Rightarrow> string \<Rightarrow> world \<Rightarrow> string \<times> world" where
  "performOcr E imagePath w =
     (let w' = emit (Recognize imagePath) w in
      case read_file (disk w) imagePath of
        Inl e \<Rightarrow> ([], w')
      | Inr c \<Rightarrow>
          (case tesseract E (now w) c of
             None \<Rightarrow> ([], w')
           | Some text \<Rightarrow> (map (\<lambda>ch. if ch = CHR 0x0A then CHR '' '' else ch) text, w')))"

text \<open>
  checkContentWithOpenAI (lines 65 to 82): one request; the verdict is whether the lower
  case of the answer contains \<^verbatim>\<open>true\<close>. When the request is rejected or the answer has
  no content to read, the \<^verbatim>\<open>catch\<close> block sets a timer of 15000 ms and returns false.
\<close>

definition prompt :: "string \<Rightarrow> string" where
  "prompt text = ''If this text has any of the following themes: nsfw, sexual sentiment, sex related words, domestic abuse, child abuse, substance use, racism, violence, guns, suicidal, vaccinations, talks about deep social issues, racism, inequality, abortions, liberals vs conservatives, return only TRUE, if it doesn't return FALSE. Text: '' @ text"

definition checkContentWithOpenAI :: "env \<Rightarrow> string \<Rightarrow> world \<Rightarrow> bool \<times> world" where
  "checkContentWithOpenAI E text w =
     (let w' = emit (ChatCompletion (prompt text)) w;
          failed = (False, emit (SetTimeout 15000) w')
      in case openai E (now w) (prompt text) of
           Rejected \<Rightarrow> failed
         | Response [] \<Rightarrow> failed
         | Response (None # others) \<Rightarrow> failed
         | Response (Some content # others) \<Rightarrow>
             (string_includes (toLowerCase content) ''true'', w'))"

text \<open>
  The two uses of sharp: reading the width and height of an image, and writing a region
  of it to another file. A region must have positive sides and lie inside the image.
\<close>

definition sharp_metadata :: "env \<Rightarrow> string \<Rightarrow> world \<Rightarrow> (error + nat \<times> nat) \<times> world" where
  "sharp_metadata E imagePath w =
     (let w' = emit (Metadata imagePath) w in
      if io_fault E (now w) (Metadata imagePath) then (Inl EIO, w')
      else case read_file (disk w) imagePath of
        Inl e \<Rightarrow> (Inl e, w')
      | Inr (Bytes b) \<Rightarrow> (Inl SharpError, w')
      | Inr (Image img) \<Rightarrow> (Inr (img_width img, img_height img), w'))"

definition sharp_extract :: "region \<Rightarrow> image \<Rightarrow> error + image" where
  "sharp_extract r img =
     (if 0 < rg_width r \<and> 0 < rg_height r
         \<and> rg_left r + rg_width r \<le> img_width img \<and> rg_top r + rg_height r \<le> img_height img
      then Inr \<lparr>picture = picture img,
                offset_x = offset_x img + rg_left r, offset_y = offset_y img + rg_top r,
                img_width = rg_width r, img_height = rg_height r\<rparr>
      else Inl SharpError)"

definition sharp_extract_toFile ::
  "env \<Rightarrow> string \<Rightarrow> region \<Rightarrow> string \<Rightarrow> world \<Rightarrow> (error + unit) \<times> world" where
  "sharp_extract_toFile E imagePath r output w =
     (let w' = emit (ExtractToFile imagePath r output) w in
      if io_fault E (now w) (ExtractToFile imagePath r output) then (Inl EIO, w')
      else case read_file (disk w) imagePath of
        Inl e \<Rightarrow> (Inl e, w')
      | Inr (Bytes b) \<Rightarrow> (Inl SharpError, w')
      | Inr (Image img) \<Rightarrow>
          (case sharp_extract r img of
             Inl e \<Rightarrow> (Inl e, w')
           | Inr img' \<Rightarrow>
               (case write_file (disk w) output (Image img') of
                  Inl e \<Rightarrow> (Inl e, w')
                | Inr fs' \<Rightarrow> (Inr (), w'\<lparr>disk := fs'\<rparr>))))"

text \<open>
  cropImage (lines 85 to 120): read the metadata, decide, then write the region to
  \<^verbatim>\<open>imagePath + '.tmp'\<close> and rename that file over the image. The two branches that crop
  differ only in the region, which \<open>crop_decision\<close> computes. Any exception is caught and
  gives false.
\<close>

definition cropImage :: "env \<Rightarrow> string \<Rightarrow> world \<Rightarrow> bool \<times> world" where
  "cropImage E imagePath w =
     (case sharp_metadata E imagePath w of
        (Inl e, w1) \<Rightarrow> (False, w1)
      | (Inr (width, height), w1) \<Rightarrow>
          (case crop_decision width height of
             NoDimensions \<Rightarrow> (False, w1)
           | ExtractRegion r \<Rightarrow>
               (case sharp_extract_toFile E imagePath r (imagePath @ ''.tmp'') w1 of
                  (Inl e, w2) \<Rightarrow> (False, w2)
                | (Inr u, w2) \<Rightarrow>
                    (case renameSync E (imagePath @ ''.tmp'') imagePath w2 of
                       (Inl e, w3) \<Rightarrow> (False, w3)
                     | (Inr u', w3) \<Rightarrow> (True, w3)))
           | DeleteFile \<Rightarrow> (False, snd (unlinkSync E imagePath w1))
           | NoChange \<Rightarrow> (True, w1)))"

text \<open>The counters \<^verbatim>\<open>processed\<close> and \<^verbatim>\<open>filtered\<close> of processImages.\<close>

record stats =
  processed :: nat
  filtered :: nat

text \<open>
  The inner \<^verbatim>\<open>try\<close> block of processImages: copy the file into the filtered folder under
  its base name, then delete the source. The first call that throws ends the block.
\<close>

definition quarantine :: "env \<Rightarrow> string \<Rightarrow> string \<Rightarrow> world \<Rightarrow> (error + unit) \<times> world" where
  "quarantine E dacyFolder imagePath w =
     (let destPath = path_join dacyFolder (path_basename imagePath) in
      case copyFileSync E imagePath destPath w of
        (Inl e, w1) \<Rightarrow> (Inl e, w1)
      | (Inr u, w1) \<Rightarrow> unlinkSync E imagePath w1)"

text \<open>
  The body of the \<^verbatim>\<open>for\<close> loop of processImages (lines 134 to 168), on the world and
  the two counters. None of the functions it calls throws, so the outer \<^verbatim>\<open>catch\<close> has
  no branch here. Console output is not modelled.
\<close>

definition process_image :: "env \<Rightarrow> string \<Rightarrow> world \<times> stats \<Rightarrow> string \<Rightarrow> world \<times> stats" where
  "process_image E dacyFolder state imagePath =
     (case state of (w, st) \<Rightarrow>
      let st1 = st\<lparr>processed := processed st + 1\<rparr> in
      case performOcr E imagePath w of (text, w1) \<Rightarrow>
      if text = [] then (w1, st1)
      else
        case checkContentWithOpenAI E text w1 of (hasSensitiveContent, w2) \<Rightarrow>
        if hasSensitiveContent then
          let st2 = st1\<lparr>filtered := filtered st1 + 1\<rparr>
          in case quarantine E dacyFolder imagePath w2 of
               (Inr u, w3) \<Rightarrow> (w3, st2)
             | (Inl e, w3) \<Rightarrow> (snd (cropImage E imagePath w3), st2)
        else (snd (cropImage E imagePath w2), st1))"

text \<open>The filter of lines 124 to 127.\<close>

definition image_extensions :: "string list" where
  "image_extensions = [''.jpg'', ''.jpeg'', ''.png'', ''.gif'', ''.bmp'']"

definition selected :: "string \<Rightarrow> string \<Rightarrow> bool" where
  "selected folder file \<longleftrightarrow>
     \<not> string_includes file (path_join folder ''dacy'')
     \<and> toLowerCase (path_extname file) \<in> set image_extensions"

text \<open>The constant \<^verbatim>\<open>paths\<close> of processImages: the files found, filtered.\<close>

definition image_paths :: "nat \<Rightarrow> filesystem \<Rightarrow> string \<Rightarrow> error + string list" where
  "image_paths depth fs folder =
     (case getAllFiles depth fs folder [] of
        Inl e \<Rightarrow> Inl e
      | Inr allFiles \<Rightarrow> Inr (filter (selected folder) allFiles))"

definition processImages :: "env \<Rightarrow> string \<Rightarrow> string \<Rightarrow> world \<Rightarrow> error + world \<times> stats" where
  "processImages E folder dacyFolder w =
     (case image_paths (stack_depth E) (disk w) folder of
        Inl e \<Rightarrow> Inl e
      | Inr paths \<Rightarrow>
          Inr (foldl (process_image E dacyFolder) (w, \<lparr>processed = 0, filtered = 0\<rparr>) paths))"

text \<open>
  The script from its first line: the constructor of the OpenAI client (line 13) throws
  when there are no credentials; without a folder argument the script exits with code 1;
  it creates the filtered folder when nothing exists at its path, then runs
  processImages. An exception outside the loop ends the script.
\<close>

datatype outcome = Exit1 | Crashed error | Finished stats

definition script :: "env \<Rightarrow> string \<Rightarrow> world \<Rightarrow> outcome \<times> world" where
  "script E folder w =
     (if \<not> api_key E then (Crashed OpenAIError, w)
      else if folder = [] then (Exit1, w)
      else let dacyFolder = path_join folder ''dacy'' in
        case (if \<not> existsSync (disk w) dacyFolder then mkdirSync E dacyFolder w
              else (Inr (), w)) of
          (Inl e, w1) \<Rightarrow> (Crashed e, w1)
        | (Inr u, w1) \<Rightarrow>
            (case processImages E folder dacyFolder w1 of
               Inl e \<Rightarrow> (Crashed e, w1)
             | Inr (w2, st) \<Rightarrow> (Finished st, w2)))"

section \<open>Observations on worlds\<close>

text \<open>The path names a regular file.\<close>

definition is_file :: "filesystem \<Rightarrow> string \<Rightarrow> bool" where
  "is_file fs p \<longleftrightarrow> (case map_of fs p of Some (File c) \<Rightarrow> True | _ \<Rightarrow> False)"

text \<open>The calls made between an earlier world and a later one.\<close>

definition events_since :: "world \<Rightarrow> world \<Rightarrow> event list" where
  "events_since w w' = drop (length (trace w)) (trace w')"

text \<open>
  The answers of the classification service for which the \<^verbatim>\<open>try\<close> block of
  checkContentWithOpenAI throws: the request is rejected, \<^verbatim>\<open>choices\<close> is empty, or the
  content of the first message is \<^verbatim>\<open>null\<close>.
\<close>

definition call_failed :: "api_response \<Rightarrow> bool" where
  "call_failed r \<longleftrightarrow>
     (case r of
        Rejected \<Rightarrow> True
      | Response [] \<Rightarrow> True
      | Response (None # others) \<Rightarrow> True
      | Response (Some content # others) \<Rightarrow> False)"

text \<open>The file an event reads, replaces or removes, if any.\<close>

fun subject :: "event \<Rightarrow> string option" where
  "subject (Recognize p) = Some p"
| "subject (ChatCompletion text) = None"
| "subject (SetTimeout ms) = None"
| "subject (Metadata p) = Some p"
| "subject (ExtractToFile p r output) = Some p"
| "subject (RenameSync old new) = Some new"
| "subject (UnlinkSync p) = Some p"
| "subject (CopyFileSync src dest) = Some src"
| "subject (MkdirSync p) = Some p"

text \<open>
  Normal forms of paths, for the proofs about \<^verbatim>\<open>path.join\<close>: a list of segments is normal
  when it is a run of \<^verbatim>\<open>..\<close> (only where the path is relative) followed by names; a path
  is clean when it is its own normal form, is not \<^verbatim>\<open>.\<close> and does not end in a separator.
\<close>

fun normal_segs :: "bool \<Rightarrow> string list \<Rightarrow> bool" where
  "normal_segs allow [] = True"
| "normal_segs allow (seg # segs) =
     (if seg = ''..'' then allow \<and> normal_segs allow segs
      else valid_name seg \<and> (\<forall>t \<in> set segs. valid_name t))"

definition clean_path :: "string \<Rightarrow> bool" where
  "clean_path d \<longleftrightarrow> d \<noteq> [] \<and> last d \<noteq> CHR ''/'' \<and> d \<noteq> ''.'' \<and> path_normalize d = d"

section \<open>Example folders and environments\<close>

definition image_a :: image where
  "image_a = \<lparr>picture = ''a'', offset_x = 0, offset_y = 0, img_width = 1000, img_height = 500\<rparr>"

definition shop_folder :: world where
  "shop_folder =
     \<lparr>disk = [(''imgs'', Directory), (''imgs/a.png'', File (Image image_a)),
              (''imgs/dacy'', Directory)],
      trace = []\<rparr>"

definition benign_env :: env where
  "benign_env =
     \<lparr>api_key = True,
      tesseract = (\<lambda>t c. Some ''hello''), openai = (\<lambda>t p. Response [Some ''FALSE'']),
      io_fault = (\<lambda>t ev. False), stack_depth = 64\<rparr>"

definition flagging_env :: env where
  "flagging_env = benign_env\<lparr>openai := (\<lambda>t p. Response [Some ''TRUE''])\<rparr>"

definition outage_env :: env where
  "outage_env = benign_env\<lparr>openai := (\<lambda>t p. Rejected)\<rparr>"

definition blind_env :: env where
  "blind_env = benign_env\<lparr>tesseract := (\<lambda>t c. None)\<rparr>"

definition copy_fault_env :: env where
  "copy_fault_env =
     flagging_env\<lparr>io_fault := (\<lambda>t ev. case ev of CopyFileSync src dest \<Rightarrow> True | _ \<Rightarrow> False)\<rparr>"

text \<open>
  A folder with an image, a text file, a file already in the filtered folder, a sibling
  directory whose name starts with \<^verbatim>\<open>dacy\<close>, a file whose name starts with \<^verbatim>\<open>dacy\<close>, and
  an image in a subdirectory.
\<close>

definition image_b :: image where
  "image_b = \<lparr>picture = ''b'', offset_x = 0, offset_y = 0, img_width = 400, img_height = 800\<rparr>"

definition mixed_folder :: world where
  "mixed_folder =
     \<lparr>disk = [(''imgs'', Directory),
              (''imgs/a.PNG'', File (Image image_a)),
              (''imgs/notes.txt'', File (Bytes ''todo'')),
              (''imgs/dacy'', Directory),
              (''imgs/dacy/q.png'', File (Image image_b)),
              (''imgs/dacy-old'', Directory),
              (''imgs/dacy-old/c.png'', File (Image image_b)),
              (''imgs/dacyX.png'', File (Image image_a)),
              (''imgs/sub'', Directory),
              (''imgs/sub/b.jpeg'', File (Image image_b))],
      trace = []\<rparr>"

text \<open>The mixed folder after a run in the benign environment.\<close>

definition mixed_folder_processed :: world where
  "mixed_folder_processed =
     \<lparr>disk = [(''imgs'', Directory),
              (''imgs/a.PNG'', File (Image (image_a\<lparr>img_height := 350\<rparr>))),
              (''imgs/notes.txt'', File (Bytes ''todo'')),
              (''imgs/dacy'', Directory),
              (''imgs/dacy/q.png'', File (Image image_b)),
              (''imgs/dacy-old'', Directory),
              (''imgs/dacy-old/c.png'', File (Image image_b)),
              (''imgs/dacyX.png'', File (Image image_a)),
              (''imgs/sub'', Directory),
              (''imgs/sub/b.jpeg'', File (Image (image_b\<lparr>img_height := 400\<rparr>)))],
      trace = [Recognize ''imgs/a.PNG'', ChatCompletion (prompt ''hello''),
               Metadata ''imgs/a.PNG'',
               ExtractToFile ''imgs/a.PNG''
                 \<lparr>rg_left = 0, rg_top = 0, rg_width = 1000, rg_height = 350\<rparr> ''imgs/a.PNG.tmp'',
               RenameSync ''imgs/a.PNG.tmp'' ''imgs/a.PNG'',
               Recognize ''imgs/sub/b.jpeg'', ChatCompletion (prompt ''hello''),
               Metadata ''imgs/sub/b.jpeg'',
               ExtractToFile ''imgs/sub/b.jpeg''
                 \<lparr>rg_left = 0, rg_top = 0, rg_width = 400, rg_height = 400\<rparr>
                 ''imgs/sub/b.jpeg.tmp'',
               RenameSync ''imgs/sub/b.jpeg.tmp'' ''imgs/sub/b.jpeg'']\<rparr>"

text \<open>
  Two images with the same base name in two subdirectories. The OCR engine reads
  \<^verbatim>\<open>war\<close> on picture x, two lines \<^verbatim>\<open>war\<close> and \<^verbatim>\<open>is over\<close> on the whole of picture y,
  and only \<^verbatim>\<open>war\<close> once the lower part of picture y has been cut off; the classification
  service answers FALSE to \<^verbatim>\<open>war is over\<close> and TRUE to everything else.
\<close>

definition image_x :: image where
  "image_x = \<lparr>picture = ''x'', offset_x = 0, offset_y = 0, img_width = 400, img_height = 800\<rparr>"

definition image_y :: image where
  "image_y = \<lparr>picture = ''y'', offset_x = 0, offset_y = 0, img_width = 1000, img_height = 500\<rparr>"

definition twin_folder :: world where
  "twin_folder =
     \<lparr>disk = [(''imgs'', Directory),
              (''imgs/x'', Directory),
              (''imgs/x/a.png'', File (Image image_x)),
              (''imgs/y'', Directory),
              (''imgs/y/a.png'', File (Image image_y)),
              (''imgs/dacy'', Directory)],
      trace = []\<rparr>"

definition caption_env :: env where
  "caption_env =
     \<lparr>api_key = True,
      tesseract = (\<lambda>t c. case c of
          Image img \<Rightarrow>
            Some (if picture img = ''y'' \<and> img_height img = 500
                  then ''war'' @ [CHR 0x0A] @ ''is over'' else ''war'')
        | Bytes b \<Rightarrow> None),
      openai = (\<lambda>t p. Response [Some (if p = prompt ''war is over'' then ''FALSE'' else ''TRUE'')]),
      io_fault = (\<lambda>t ev. False), stack_depth = 64\<rparr>"

text \<open>The twin folder after a first run in that environment.\<close>

definition twin_folder_processed :: world where
  "twin_folder_processed =
     \<lparr>disk = [(''imgs'', Directory),
              (''imgs/x'', Directory),
              (''imgs/y'', Directory),
              (''imgs/y/a.png'', File (Image (image_y\<lparr>img_height := 350\<rparr>))),
              (''imgs/dacy'', Directory),
              (''imgs/dacy/a.png'', File (Image image_x))],
      trace = [Recognize ''imgs/x/a.png'', ChatCompletion (prompt ''war''),
               CopyFileSync ''imgs/x/a.png'' ''imgs/dacy/a.png'', UnlinkSync ''imgs/x/a.png'',
               Recognize ''imgs/y/a.png'', ChatCompletion (prompt ''war is over''),
               Metadata ''imgs/y/a.png'',
               ExtractToFile ''imgs/y/a.png''
                 \<lparr>rg_left = 0, rg_top = 0, rg_width = 1000, rg_height = 350\<rparr>
                 ''imgs/y/a.png.tmp'',
               RenameSync ''imgs/y/a.png.tmp'' ''imgs/y/a.png'']\<rparr>"





text \<open>A folder with one landscape image, 100 pixels wide and 90 pixels high.\<close>

definition image_c :: image where
  "image_c = \<lparr>picture = ''c'', offset_x = 0, offset_y = 0, img_width = 100, img_height = 90\<rparr>"

definition wide_folder :: world where
  "wide_folder =
     \<lparr>disk = [(''imgs'', Directory), (''imgs/c.png'', File (Image image_c)),
              (''imgs/dacy'', Directory)],
      trace = []\<rparr>"

section \<open>Rounding lemmas\<close>

lemma bitlen_le: "n < 2 ^ k \<Longrightarrow> bitlen n \<le> k"
proof (induction k arbitrary: n)
  case 0
  then show ?case by (simp add: bitlen.simps)
next
  case (Suc k)
  show ?case
  proof (cases "n = 0")
    case True
    then show ?thesis by (simp add: bitlen.simps)
  next
    case False
    from Suc.prems have "n div 2 < 2 ^ k" by simp
    then have "bitlen (n div 2) \<le> k" by (rule Suc.IH)
    with False show ?thesis by (subst bitlen.simps) simp
  qed
qed

lemma bitlen_ge: "2 ^ k \<le> n \<Longrightarrow> k < bitlen n"
proof (induction k arbitrary: n)
  case 0
  then show ?case by (subst bitlen.simps) simp
next
  case (Suc k)
  then have "2 ^ k \<le> n div 2" by simp
  then have "k < bitlen (n div 2)" by (rule Suc.IH)
  moreover have "n \<noteq> 0"
  proof
    assume "n = 0"
    with Suc.prems show False by simp
  qed
  ultimately show ?case by (subst bitlen.simps) simp
qed

lemma bitlen_eqI: "2 ^ k \<le> n \<Longrightarrow> n < 2 ^ Suc k \<Longrightarrow> bitlen n = Suc k"
  using bitlen_ge [of k n] bitlen_le [of n "Suc k"] by simp

lemma round_double_multiple:
  "bitlen n > 53 \<Longrightarrow> 2 ^ (bitlen n - 53) dvd round_double n"
  by (simp add: round_double_def Let_def)

lemma round_generic:
  fixes q r e :: nat
  assumes "r < 2 * e"
  defines "x \<equiv> (if r > e \<or> (r = e \<and> odd q) then (q + 1) * (2 * e) else q * (2 * e))"
  shows "x \<le> q * (2 * e) + r + e" and "q * (2 * e) + r \<le> x + e"
proof -
  have up: "(q + 1) * (2 * e) = q * (2 * e) + 2 * e" by (simp add: algebra_simps)
  have both: "x \<le> q * (2 * e) + r + e \<and> q * (2 * e) + r \<le> x + e"
  proof (cases "r > e \<or> (r = e \<and> odd q)")
    case True
    have "x = (q + 1) * (2 * e)" unfolding x_def by (rule if_P [OF True])
    then have "x = q * (2 * e) + 2 * e" using up by simp
    moreover have "e \<le> r" using True by auto
    ultimately show ?thesis using assms(1) by linarith
  next
    case False
    have "x = q * (2 * e)" unfolding x_def by (rule if_not_P [OF False])
    moreover have "r \<le> e" using False by auto
    ultimately show ?thesis by linarith
  qed
  from both show "x \<le> q * (2 * e) + r + e" ..
  from both show "q * (2 * e) + r \<le> x + e" ..
qed

text \<open>Rounding moves a number by at most half a unit in the last place.\<close>

lemma round_double_cases:
  assumes "bitlen n > 53"
  defines "s \<equiv> bitlen n - 53"
  shows "round_double n \<le> n + 2 ^ (s - 1)" and "n \<le> round_double n + 2 ^ (s - 1)"
proof -
  have s: "s \<ge> 1" using assms by simp
  define e where "e = (2::nat) ^ (s - 1)"
  have p: "(2::nat) ^ s = 2 * e" using s by (cases s) (simp_all add: e_def)
  define q where "q = n div (2 * e)"
  define r where "r = n mod (2 * e)"
  have n: "n = q * (2 * e) + r" unfolding q_def r_def by (rule div_mult_mod_eq [symmetric])
  have e0: "0 < e" by (simp add: e_def)
  have m: "r < 2 * e" using e0 by (simp add: r_def)
  have nle: "\<not> bitlen n \<le> 53" using assms(1) by simp
  have "round_double n =
      (let s = bitlen n - 53; q = n div 2 ^ s; r = n mod 2 ^ s; half = 2 ^ (s - 1)
       in if r > half \<or> (r = half \<and> odd q) then (q + 1) * 2 ^ s else q * 2 ^ s)"
    unfolding round_double_def by (rule if_not_P [OF nle])
  then have rd: "round_double n =
      (if r > e \<or> (r = e \<and> odd q) then (q + 1) * (2 * e) else q * (2 * e))"
    unfolding Let_def s_def [symmetric] p e_def [symmetric] q_def [symmetric]
      r_def [symmetric] .
  show "round_double n \<le> n + 2 ^ (s - 1)"
    using round_generic(1) [OF m, of q] n unfolding rd e_def [symmetric] by linarith
  show "n \<le> round_double n + 2 ^ (s - 1)"
    using round_generic(2) [OF m, of q] n unfolding rd e_def [symmetric] by linarith
qed

lemma round_double_near:
  assumes "n < 2 ^ 85"
  shows "round_double n \<le> n + 2 ^ 31" and "n \<le> round_double n + 2 ^ 31"
proof -
  have both: "round_double n \<le> n + 2 ^ 31 \<and> n \<le> round_double n + 2 ^ 31"
  proof (cases "bitlen n \<le> 53")
    case True
    then have "round_double n = n" by (simp add: round_double_def)
    then show ?thesis by simp
  next
    case False
    then have b: "bitlen n > 53" by simp
    have "bitlen n \<le> 85" using assms by (rule bitlen_le)
    then have "bitlen n - 53 - 1 \<le> 31" by simp
    then have "(2::nat) ^ (bitlen n - 53 - 1) \<le> 2 ^ 31" by (rule power_increasing) simp
    with round_double_cases [OF b] show ?thesis by linarith
  qed
  from both show "round_double n \<le> n + 2 ^ 31" ..
  from both show "n \<le> round_double n + 2 ^ 31" ..
qed

text \<open>Integers below \<open>2 ^ 53\<close> are doubles, so rounding never crosses one from below.\<close>

lemma round_double_below_multiple:
  assumes "n \<le> m * 2 ^ 53" and "n < 2 ^ 85"
  shows "round_double n \<le> m * 2 ^ 53"
proof (cases "bitlen n \<le> 53")
  case True
  then have "round_double n = n" by (simp add: round_double_def)
  with assms(1) show ?thesis by simp
next
  case False
  then have b: "bitlen n > 53" by simp
  define s where "s = bitlen n - 53"
  have "bitlen n \<le> 85" using assms(2) by (rule bitlen_le)
  then have s53: "s \<le> 53" and s1: "1 \<le> s" using b by (simp_all add: s_def)
  obtain a where a: "round_double n = 2 ^ s * a"
    using round_double_multiple [OF b] unfolding s_def by (auto elim: dvdE)
  have "(2::nat) ^ 53 = 2 ^ s * 2 ^ (53 - s)"
    using s53 by (simp add: power_add [symmetric])
  then have c: "m * 2 ^ 53 = 2 ^ s * (m * 2 ^ (53 - s))" by simp
  have h: "(2::nat) ^ s = 2 * 2 ^ (s - 1)" using s1 by (cases s) simp_all
  have "round_double n \<le> n + 2 ^ (s - 1)"
    using round_double_cases(1) [OF b] by (simp add: s_def)
  also have "\<dots> < m * 2 ^ 53 + 2 ^ s"
  proof -
    have "0 < (2::nat) ^ (s - 1)" by simp
    with assms(1) h show ?thesis by linarith
  qed
  finally have "2 ^ s * a < 2 ^ s * (m * 2 ^ (53 - s)) + 2 ^ s" unfolding a c .
  then have "2 ^ s * a < 2 ^ s * (m * 2 ^ (53 - s) + 1)" by (simp add: algebra_simps)
  then have "0 < (2::nat) ^ s \<and> a < m * 2 ^ (53 - s) + 1"
    by (simp only: mult_less_cancel1)
  then have "a \<le> m * 2 ^ (53 - s)" by simp
  then have "2 ^ s * a \<le> 2 ^ s * (m * 2 ^ (53 - s))" by simp
  then show ?thesis unfolding a c .
qed

text \<open>
  For heights below \<open>2 ^ 32\<close> the computed value is the exact \<open>\<lfloor>7 h / 10\<rfloor>\<close> whenever
  \<open>h\<close> is not a multiple of 10, and it is never more than one below it.
\<close>

lemma js_floor_mul_0_7_exact:
  assumes "h < 2 ^ 32" and "h mod 10 \<noteq> 0"
  shows "js_floor_mul_0_7 h = 7 * h div 10"
proof -
  define n where "n = h * double_0_7"
  define R where "R = round_double n"
  define F where "F = 7 * h div 10"
  define d where "d = 7 * h mod 10"
  have hb: "h < 4294967296" using assms(1) by simp
  have key: "10 * n + 4 * h = 7 * h * 9007199254740992"
    by (simp add: n_def double_0_7_def)
  have nb: "n < 2 ^ 85" using hb by (simp add: n_def double_0_7_def)
  have split: "7 * h = 10 * F + d" by (simp add: F_def d_def)
  have d1: "1 \<le> d" using assms(2) unfolding d_def by presburger
  have d9: "d \<le> 9" unfolding d_def by presburger
  have up: "R \<le> n + 2147483648" and lo: "n \<le> R + 2147483648"
    using round_double_near [OF nb] by (simp_all add: R_def)
  have "9007199254740992 * F \<le> R" using key split d1 hb lo by linarith
  moreover have "R < 9007199254740992 * Suc F"
  proof -
    have "R < 9007199254740992 * F + 9007199254740992" using key split d9 up by linarith
    then show ?thesis by simp
  qed
  ultimately have "R div 9007199254740992 = F" by (rule div_nat_eqI)
  then show ?thesis by (simp add: js_floor_mul_0_7_def R_def n_def F_def)
qed

lemma js_floor_mul_0_7_bounds:
  assumes "h < 2 ^ 32"
  shows "js_floor_mul_0_7 h \<le> 7 * h div 10" and "7 * h div 10 \<le> js_floor_mul_0_7 h + 1"
proof -
  define n where "n = h * double_0_7"
  define R where "R = round_double n"
  define F where "F = 7 * h div 10"
  define d where "d = 7 * h mod 10"
  have hb: "h < 4294967296" using assms(1) by simp
  have key: "10 * n + 4 * h = 7 * h * 9007199254740992"
    by (simp add: n_def double_0_7_def)
  have nb: "n < 2 ^ 85" using hb by (simp add: n_def double_0_7_def)
  have split: "7 * h = 10 * F + d" by (simp add: F_def d_def)
  have js: "js_floor_mul_0_7 h = R div 9007199254740992"
    by (simp add: js_floor_mul_0_7_def R_def n_def)
  have lo: "n \<le> R + 2147483648"
    using round_double_near(2) [OF nb] by (simp add: R_def)
  have both: "R div 9007199254740992 \<le> F \<and> F \<le> R div 9007199254740992 + 1"
  proof (cases "d = 0")
    case False
    then have "h mod 10 \<noteq> 0" unfolding d_def by presburger
    from js_floor_mul_0_7_exact [OF assms this] show ?thesis by (simp add: js F_def)
  next
    case True
    have "n \<le> F * 2 ^ 53" using key split True by simp
    then have "R \<le> F * 2 ^ 53" unfolding R_def using nb by (rule round_double_below_multiple)
    then have Rle: "R \<le> F * 9007199254740992" by simp
    then have "R div 9007199254740992 \<le> F * 9007199254740992 div 9007199254740992"
      by (rule div_le_mono)
    then have a: "R div 9007199254740992 \<le> F" by simp
    have "(F - 1) * 9007199254740992 \<le> R" using key split True hb lo by (cases F) simp_all
    then have "(F - 1) * 9007199254740992 div 9007199254740992 \<le> R div 9007199254740992"
      by (rule div_le_mono)
    then have "F - 1 \<le> R div 9007199254740992" by simp
    with a show ?thesis by linarith
  qed
  from both show "js_floor_mul_0_7 h \<le> 7 * h div 10" by (simp add: js F_def)
  from both show "7 * h div 10 \<le> js_floor_mul_0_7 h + 1" by (simp add: js F_def)
qed

lemma js_floor_mul_0_7_less: "0 < h \<Longrightarrow> h < 2 ^ 32 \<Longrightarrow> js_floor_mul_0_7 h < h"
  using js_floor_mul_0_7_bounds(1) [of h] by linarith

lemma js_floor_mul_0_7_90: "js_floor_mul_0_7 90 = 62"
proof -
  have b: "bitlen (90 * double_0_7) = Suc 58"
    by (rule bitlen_eqI) (simp_all add: double_0_7_def)
  show ?thesis
    by (simp add: js_floor_mul_0_7_def round_double_def b Let_def) (simp add: double_0_7_def)
qed

section \<open>Paths\<close>

text \<open>
  Cutting a path at its separators and joining the segments again are inverse on the
  segments that \<^verbatim>\<open>normalizeString\<close> returns, and \<^verbatim>\<open>normalizeString\<close> returns a normal list
  and leaves a normal list as it is. So a normalized path that does not end in a
  separator and has a segment is clean, and joining a name to a clean path appends a
  separator and the name.
\<close>

lemma split_slash_nonempty [simp]: "split_slash s \<noteq> []"
  by (induction s) (auto split: list.splits)

lemma split_slash_append:
  "split_slash (a @ CHR ''/'' # b) = split_slash a @ split_slash b"
proof (induction a)
  case Nil
  show ?case by simp
next
  case (Cons c a)
  obtain s ss where "split_slash a = s # ss" by (cases "split_slash a") simp_all
  with Cons show ?case by simp
qed

lemma split_slash_noslash: "CHR ''/'' \<notin> set s \<Longrightarrow> split_slash s = [s]"
  by (induction s) auto

lemma split_slash_segments: "seg \<in> set (split_slash s) \<Longrightarrow> CHR ''/'' \<notin> set seg"
proof (induction s arbitrary: seg)
  case Nil
  then show ?case by simp
next
  case (Cons c s)
  obtain t ts where ts: "split_slash s = t # ts" by (cases "split_slash s") simp_all
  show ?case
  proof (cases "c = CHR ''/''")
    case True
    with Cons show ?thesis by auto
  next
    case False
    with Cons.prems ts have "seg = c # t \<or> seg \<in> set ts" by auto
    with Cons.IH [of t] Cons.IH [of seg] ts False show ?thesis by auto
  qed
qed

lemma join_slash_snoc:
  "ys \<noteq> [] \<Longrightarrow> join_slash (ys @ [n]) = join_slash ys @ ''/'' @ n"
  by (induction ys rule: join_slash.induct) simp_all

lemma join_slash_Cons: "ys \<noteq> [] \<Longrightarrow> join_slash (s # ys) = s @ CHR ''/'' # join_slash ys"
  by (cases ys) simp_all

lemma split_join_slash:
  "ys \<noteq> [] \<Longrightarrow> \<forall>s \<in> set ys. CHR ''/'' \<notin> set s \<Longrightarrow> split_slash (join_slash ys) = ys"
proof (induction ys rule: join_slash.induct)
  case 1
  then show ?case by simp
next
  case (2 seg)
  then show ?case by (simp add: split_slash_noslash)
next
  case (3 seg v va)
  have "split_slash (join_slash (seg # v # va)) = split_slash seg @ split_slash (join_slash (v # va))"
    using split_slash_append [of seg "join_slash (v # va)"] by simp
  with 3 show ?case by (simp add: split_slash_noslash)
qed

lemma normalizeString_snoc:
  "valid_name n \<Longrightarrow>
   normalizeString allow res (xs @ [n]) = normalizeString allow res xs @ [n]"
  by (induction xs arbitrary: res) (auto simp: valid_name_def split: list.splits)

lemma normal_segs_elems:
  "normal_segs allow xs \<Longrightarrow> t \<in> set xs \<Longrightarrow> t = ''..'' \<or> valid_name t"
proof (induction xs)
  case Nil
  then show ?case by simp
next
  case (Cons x xs)
  then show ?case by (cases "x = ''..''") auto
qed

lemma valid_name_not_dots: "valid_name n \<Longrightarrow> n \<noteq> ''..''"
  by (auto simp: valid_name_def)

lemma normal_segs_snoc_valid:
  "normal_segs allow xs \<Longrightarrow> valid_name n \<Longrightarrow> normal_segs allow (xs @ [n])"
proof (induction xs)
  case Nil
  then show ?case using valid_name_not_dots [of n] by simp
next
  case (Cons x xs)
  then show ?case by (cases "x = ''..''") auto
qed

lemma normal_segs_butlast: "normal_segs allow (xs @ [t]) \<Longrightarrow> normal_segs allow xs"
proof (induction xs)
  case Nil
  then show ?case by simp
next
  case (Cons x xs)
  then show ?case by (cases "x = ''..''") auto
qed

lemma normal_segs_before_dots:
  "normal_segs allow (xs @ ''..'' # ys) \<Longrightarrow> allow \<and> (\<forall>t \<in> set xs. t = ''..'')"
proof (induction xs)
  case Nil
  then show ?case by simp
next
  case (Cons x xs)
  show ?case
  proof (cases "x = ''..''")
    case True
    with Cons show ?thesis by auto
  next
    case False
    with Cons.prems have "valid_name ''..''" by simp
    then show ?thesis by (simp add: valid_name_def)
  qed
qed

lemma normal_segs_all_dots:
  "allow \<Longrightarrow> \<forall>t \<in> set xs. t = ''..'' \<Longrightarrow> normal_segs allow xs"
  by (induction xs) auto


lemma valid_nameI:
  "seg \<noteq> [] \<Longrightarrow> seg \<noteq> ''.'' \<Longrightarrow> seg \<noteq> ''..'' \<Longrightarrow> CHR ''/'' \<notin> set seg \<Longrightarrow> valid_name seg"
  by (simp add: valid_name_def)

lemma normalizeString_normal:
  "normal_segs allow (rev res) \<Longrightarrow> \<forall>s \<in> set segs. CHR ''/'' \<notin> set s \<Longrightarrow>
   normal_segs allow (normalizeString allow res segs)"
proof (induction segs arbitrary: res)
  case Nil
  then show ?case by simp
next
  case (Cons seg segs)
  from Cons.prems(2) have rest: "\<forall>s \<in> set segs. CHR ''/'' \<notin> set s"
    and noslash: "CHR ''/'' \<notin> set seg" by simp_all
  consider (skip) "seg = [] \<or> seg = ''.''" | (up) "seg = ''..''"
    | (name) "seg \<noteq> []" "seg \<noteq> ''.''" "seg \<noteq> ''..''" by blast
  then show ?case
  proof cases
    case skip
    then show ?thesis using Cons.IH [OF Cons.prems(1) rest] by auto
  next
    case up
    show ?thesis
    proof (cases res)
      case Nil
      have "normal_segs allow (rev (if allow then [''..''] else []))" by simp
      from Cons.IH [OF this rest] show ?thesis using up Nil by simp
    next
      case (Cons t res')
      show ?thesis
      proof (cases "t = ''..''")
        case False
        from Cons.prems(1) Cons have "normal_segs allow (rev res' @ [t])" by simp
        then have "normal_segs allow (rev res')" by (rule normal_segs_butlast)
        from Cons.IH [OF this rest] show ?thesis using up Cons False by simp
      next
        case True
        show ?thesis
        proof (cases allow)
          case False
          from Cons.IH [OF Cons.prems(1) rest] show ?thesis using up Cons True False by simp
        next
          case allow: True
          from Cons.prems(1) Cons True have "normal_segs allow (rev res' @ ''..'' # [])" by simp
          then have "\<forall>t \<in> set (rev res'). t = ''..''"
            using normal_segs_before_dots by blast
          then have "\<forall>t \<in> set (rev (''..'' # res)). t = ''..''" using Cons True by simp
          with allow have "normal_segs allow (rev (''..'' # res))" by (rule normal_segs_all_dots)
          from Cons.IH [OF this rest] show ?thesis using up Cons True allow by simp
        qed
      qed
    qed
  next
    case name
    then have v: "valid_name seg" using noslash by (intro valid_nameI)
    from Cons.prems(1) v have "normal_segs allow (rev res @ [seg])" by (rule normal_segs_snoc_valid)
    then have "normal_segs allow (rev (seg # res))" by simp
    from Cons.IH [OF this rest] show ?thesis using name by simp
  qed
qed

lemma normalizeString_id:
  "normal_segs allow (rev res @ zs) \<Longrightarrow> normalizeString allow res zs = rev res @ zs"
proof (induction zs arbitrary: res)
  case Nil
  then show ?case by simp
next
  case (Cons z zs)
  have "z = ''..'' \<or> valid_name z"
    using normal_segs_elems [OF Cons.prems, of z] by simp
  then show ?case
  proof
    assume v: "valid_name z"
    then have z: "z \<noteq> []" "z \<noteq> ''.''" "z \<noteq> ''..''" by (auto simp: valid_name_def)
    from Cons.prems have "normal_segs allow (rev (z # res) @ zs)" by simp
    from Cons.IH [OF this] show ?thesis using z by simp
  next
    assume up: "z = ''..''"
    with Cons.prems have a: "allow" and d: "\<forall>t \<in> set (rev res). t = ''..''"
      using normal_segs_before_dots [of allow "rev res" zs] by auto
    from Cons.prems up have "normal_segs allow (rev (''..'' # res) @ zs)" by simp
    from Cons.IH [OF this] show ?thesis using up a d by (cases res) simp_all
  qed
qed


lemma normal_segs_seg:
  assumes "normal_segs allow ys" and "t \<in> set ys"
  shows "t \<noteq> []" and "CHR ''/'' \<notin> set t" and "t \<noteq> ''.''"
  using normal_segs_elems [OF assms] by (auto simp: valid_name_def)

lemma join_slash_nonempty:
  "ys \<noteq> [] \<Longrightarrow> \<forall>t \<in> set ys. t \<noteq> [] \<Longrightarrow> join_slash ys \<noteq> []"
  by (induction ys rule: join_slash.induct) simp_all

lemma join_slash_hd:
  "ys \<noteq> [] \<Longrightarrow> \<forall>t \<in> set ys. t \<noteq> [] \<Longrightarrow> hd (join_slash ys) = hd (hd ys)"
  by (induction ys rule: join_slash.induct) simp_all

lemma join_slash_last:
  "ys \<noteq> [] \<Longrightarrow> \<forall>t \<in> set ys. t \<noteq> [] \<Longrightarrow> last (join_slash ys) = last (last ys)"
  by (induction ys rule: join_slash.induct) (simp_all add: join_slash_nonempty)

lemma join_slash_not_dot:
  assumes "normal_segs allow ys" and "ys \<noteq> []"
  shows "join_slash ys \<noteq> ''.''"
proof (cases ys)
  case Nil
  with assms show ?thesis by simp
next
  case (Cons y rest)
  show ?thesis
  proof (cases rest)
    case Nil
    with Cons normal_segs_seg(3) [OF assms(1), of y] show ?thesis by simp
  next
    case (Cons z rest')
    have "y \<noteq> []" using normal_segs_seg(1) [OF assms(1), of y] \<open>ys = y # rest\<close> by simp
    then obtain c cs where "y = c # cs" by (cases y) simp_all
    with \<open>ys = y # rest\<close> Cons show ?thesis by simp
  qed
qed

text \<open>The shape of a normalized path that does not end in a separator.\<close>

lemma path_normalize_shape:
  assumes "x \<noteq> []" and "last x \<noteq> CHR ''/''"
    and "ys = normalizeString (hd x \<noteq> CHR ''/'') [] (split_slash x)" and "ys \<noteq> []"
  shows "path_normalize x = (if hd x = CHR ''/'' then ''/'' else []) @ join_slash ys"
    and "normal_segs (hd x \<noteq> CHR ''/'') ys"
proof -
  have "normal_segs (hd x \<noteq> CHR ''/'') (rev [])" by simp
  moreover have "\<forall>s \<in> set (split_slash x). CHR ''/'' \<notin> set s"
    using split_slash_segments by blast
  ultimately show n: "normal_segs (hd x \<noteq> CHR ''/'') ys"
    unfolding assms(3) by (rule normalizeString_normal)
  have "\<forall>t \<in> set ys. t \<noteq> []" using normal_segs_seg(1) [OF n] by blast
  with assms(4) have "join_slash ys \<noteq> []" by (rule join_slash_nonempty)
  with assms(1,2) show "path_normalize x = (if hd x = CHR ''/'' then ''/'' else []) @ join_slash ys"
    by (simp add: path_normalize_def Let_def assms(3) [symmetric])
qed

lemma path_normalize_clean:
  assumes "x \<noteq> []" and "last x \<noteq> CHR ''/''"
    and "normalizeString (hd x \<noteq> CHR ''/'') [] (split_slash x) \<noteq> []"
  shows "clean_path (path_normalize x)"
proof -
  define allow where "allow = (hd x \<noteq> CHR ''/'')"
  define ys where "ys = normalizeString allow [] (split_slash x)"
  define D where "D = path_normalize x"
  have ys: "ys \<noteq> []" using assms(3) by (simp add: ys_def allow_def)
  have D: "D = (if allow then [] else ''/'') @ join_slash ys"
    and n: "normal_segs allow ys"
    using path_normalize_shape [OF assms(1,2), of ys] ys
    by (simp_all add: ys_def allow_def D_def)
  have ne: "\<forall>t \<in> set ys. t \<noteq> []" using normal_segs_seg(1) [OF n] by blast
  have ns: "\<forall>t \<in> set ys. CHR ''/'' \<notin> set t" using normal_segs_seg(2) [OF n] by blast
  have p: "join_slash ys \<noteq> []" using ys ne by (rule join_slash_nonempty)
  have "last ys \<in> set ys" using ys by simp
  then have ly: "last ys \<noteq> []" and lys: "CHR ''/'' \<notin> set (last ys)" using ne ns by auto
  have "last (join_slash ys) = last (last ys)" using ys ne by (rule join_slash_last)
  moreover have "last (last ys) \<in> set (last ys)" using ly by simp
  ultimately have lp: "last (join_slash ys) \<noteq> CHR ''/''" using lys by auto
  have "hd ys \<in> set ys" using ys by simp
  then have hy: "hd ys \<noteq> []" and hys: "CHR ''/'' \<notin> set (hd ys)" using ne ns by auto
  have "hd (join_slash ys) = hd (hd ys)" using ys ne by (rule join_slash_hd)
  moreover have "hd (hd ys) \<in> set (hd ys)" using hy by simp
  ultimately have hp: "hd (join_slash ys) \<noteq> CHR ''/''" using hys by auto
  have D1: "D \<noteq> []" using p by (simp add: D)
  have D2: "last D \<noteq> CHR ''/''" using p lp by (simp add: D)
  have D3: "D \<noteq> ''.''" using join_slash_not_dot [OF n ys] by (auto simp: D)
  have hdD: "(hd D \<noteq> CHR ''/'') = allow" using p hp by (simp add: D)
  have sp: "split_slash (join_slash ys) = ys" using ys ns by (rule split_join_slash)
  have "normal_segs allow (rev [] @ ys)" using n by simp
  then have id: "normalizeString allow [] ys = ys" using normalizeString_id [of allow "[]" ys] by simp
  have "normalizeString allow [] (split_slash D) = ys"
    using sp id by (cases allow) (simp_all add: D)
  then have "normalizeString (hd D \<noteq> CHR ''/'') [] (split_slash D) = ys" by (simp only: hdD)
  from path_normalize_shape(1) [OF D1 D2 this [symmetric] ys]
  have "path_normalize D = (if hd D = CHR ''/'' then ''/'' else []) @ join_slash ys" .
  also have "\<dots> = D" using hdD by (cases allow) (simp_all add: D)
  finally have D4: "path_normalize D = D" .
  show ?thesis using D1 D2 D3 D4 by (simp add: clean_path_def D_def)
qed


lemma valid_name_facts:
  assumes "valid_name n"
  shows "n \<noteq> []" and "CHR ''/'' \<notin> set n" and "last n \<noteq> CHR ''/''"
proof -
  show a: "n \<noteq> []" and b: "CHR ''/'' \<notin> set n" using assms by (simp_all add: valid_name_def)
  from a have "last n \<in> set n" by simp
  with b show "last n \<noteq> CHR ''/''" by auto
qed

lemma normalize_snoc_clean:
  assumes "valid_name n" and "x = a @ ''/'' @ n \<or> x = n"
  shows "clean_path (path_normalize x)"
proof -
  note v = valid_name_facts [OF assms(1)]
  have x: "x \<noteq> []" and l: "last x \<noteq> CHR ''/''" using assms(2) v by auto
  have "\<exists>xs. split_slash x = xs @ [n]"
  proof -
    from assms(2) show ?thesis
    proof
      assume "x = a @ ''/'' @ n"
      then have "split_slash x = split_slash a @ [n]"
        using split_slash_append [of a n] v(2) by (simp add: split_slash_noslash)
      then show ?thesis by blast
    next
      assume "x = n"
      then have "split_slash x = [] @ [n]" using v(2) by (simp add: split_slash_noslash)
      then show ?thesis by blast
    qed
  qed
  then obtain xs where "split_slash x = xs @ [n]" ..
  then have "normalizeString (hd x \<noteq> CHR ''/'') [] (split_slash x)
      = normalizeString (hd x \<noteq> CHR ''/'') [] xs @ [n]"
    using normalizeString_snoc [OF assms(1)] by simp
  then have "normalizeString (hd x \<noteq> CHR ''/'') [] (split_slash x) \<noteq> []" by simp
  with x l show ?thesis by (rule path_normalize_clean)
qed

lemma dacy_clean: "clean_path (path_join folder ''dacy'')"
proof -
  have v: "valid_name ''dacy''" by (simp add: valid_name_def)
  show ?thesis
  proof (cases "folder = []")
    case True
    then have "path_join folder ''dacy'' = path_normalize ''dacy''" by (simp add: path_join_def)
    with normalize_snoc_clean [OF v, of "''dacy''"] show ?thesis by simp
  next
    case False
    then have "path_join folder ''dacy'' = path_normalize (folder @ ''/'' @ ''dacy'')"
      by (simp add: path_join_def)
    with normalize_snoc_clean [OF v, of "folder @ ''/'' @ ''dacy''" folder] show ?thesis by simp
  qed
qed

lemma path_join_clean:
  assumes "clean_path d" and "valid_name n"
  shows "path_join d n = d @ ''/'' @ n" and "clean_path (d @ ''/'' @ n)"
proof -
  note v = valid_name_facts [OF assms(2)]
  from assms(1) have d: "d \<noteq> []" "last d \<noteq> CHR ''/''" "d \<noteq> ''.''" "path_normalize d = d"
    by (simp_all add: clean_path_def)
  define yd where "yd = normalizeString (hd d \<noteq> CHR ''/'') [] (split_slash d)"
  define pre where "pre = (if hd d = CHR ''/'' then ''/'' else [])"
  have yd: "yd \<noteq> []"
  proof
    assume "yd = []"
    then have "path_normalize d = (if hd d = CHR ''/'' then ''/'' else ''.'')"
      using d(1,2) by (simp add: path_normalize_def Let_def yd_def)
    with d(2,3,4) show False by (cases "hd d = CHR ''/''") auto
  qed
  have "path_normalize d = pre @ join_slash yd"
    unfolding pre_def using d(1,2) yd_def yd by (rule path_normalize_shape(1))
  then have sd: "d = pre @ join_slash yd" by (simp only: d(4))
  define x where "x = d @ ''/'' @ n"
  have x: "x \<noteq> []" and lx: "last x \<noteq> CHR ''/''" and hx: "hd x = hd d"
    using d(1) v by (simp_all add: x_def)
  have "split_slash x = split_slash d @ [n]"
    using split_slash_append [of d n] v(2) by (simp add: x_def split_slash_noslash)
  then have yx: "yd @ [n] = normalizeString (hd x \<noteq> CHR ''/'') [] (split_slash x)"
    using normalizeString_snoc [OF assms(2)] by (simp add: hx yd_def)
  have "yd @ [n] \<noteq> []" by simp
  with x lx yx
  have "path_normalize x = (if hd x = CHR ''/'' then ''/'' else []) @ join_slash (yd @ [n])"
    by (rule path_normalize_shape(1))
  then have "path_normalize x = pre @ join_slash (yd @ [n])" by (simp only: hx pre_def)
  also have "\<dots> = (pre @ join_slash yd) @ ''/'' @ n"
    using yd by (simp add: join_slash_snoc)
  also have "\<dots> = x" unfolding x_def by (simp only: sd [symmetric])
  finally have nx: "path_normalize x = x" .
  show "path_join d n = d @ ''/'' @ n"
    using nx d(1) v(1) by (simp add: path_join_def x_def)
  have "clean_path (path_normalize x)"
    using normalize_snoc_clean [OF assms(2), of x d] by (simp add: x_def)
  then have "clean_path x" by (simp only: nx)
  then show "clean_path (d @ ''/'' @ n)" by (simp only: x_def)
qed

lemma string_includes_iff: "string_includes s t \<longleftrightarrow> (\<exists>ps ss. s = ps @ t @ ss)"
proof (induction s)
  case Nil
  show ?case by auto
next
  case (Cons c s)
  show ?case
  proof
    assume "string_includes (c # s) t"
    then have "prefix t (c # s) \<or> string_includes s t" by simp
    then show "\<exists>ps ss. c # s = ps @ t @ ss"
    proof
      assume "prefix t (c # s)"
      then obtain ss where "c # s = t @ ss" by (auto simp: prefix_def)
      then have "c # s = [] @ t @ ss" by simp
      then show ?thesis by blast
    next
      assume "string_includes s t"
      with Cons obtain ps ss where "s = ps @ t @ ss" by blast
      then have "c # s = (c # ps) @ t @ ss" by simp
      then show ?thesis by blast
    qed
  next
    assume "\<exists>ps ss. c # s = ps @ t @ ss"
    then obtain ps ss where e: "c # s = ps @ t @ ss" by blast
    show "string_includes (c # s) t"
    proof (cases ps)
      case Nil
      with e have "prefix t (c # s)" by (simp add: prefix_def)
      then show ?thesis by simp
    next
      case (Cons c' ps')
      with e have "s = ps' @ t @ ss" by simp
      with Cons.IH have "string_includes s t" by blast
      then show ?thesis by simp
    qed
  qed
qed

lemma prefix_string_includes: "prefix (d @ r) x \<Longrightarrow> string_includes x d"
proof -
  assume "prefix (d @ r) x"
  then obtain ss where "x = (d @ r) @ ss" by (auto simp: prefix_def)
  then have "x = [] @ d @ (r @ ss)" by simp
  then show ?thesis unfolding string_includes_iff by blast
qed




section \<open>The scan\<close>

text \<open>
  Every path that getAllFiles adds while it walks a clean directory starts with the path
  of that directory and a separator.
\<close>

lemma readdirSync_valid:
  "readdirSync fs d = Inr names \<Longrightarrow> \<forall>n \<in> set names. valid_name n"
  by (auto simp: readdirSync_def child_of_def split: option.splits entry.splits)

lemma getAllFiles_under:
  "clean_path dirPath \<Longrightarrow> getAllFiles depth fs dirPath acc = Inr out \<Longrightarrow>
     \<exists>new. out = acc @ new \<and> (\<forall>x \<in> set new. prefix (dirPath @ ''/'') x)"
  and forEach_file_under:
  "clean_path dirPath \<Longrightarrow> \<forall>n \<in> set names. valid_name n \<Longrightarrow>
   forEach_file depth fs dirPath names acc = Inr out \<Longrightarrow>
     \<exists>new. out = acc @ new \<and> (\<forall>x \<in> set new. prefix (dirPath @ ''/'') x)"
proof (induction depth fs dirPath acc and depth fs dirPath names acc
    arbitrary: out and out rule: getAllFiles_forEach_file.induct)
  case (1 fs dirPath arrayOfFiles)
  then show ?case by simp
next
  case (2 depth fs dirPath arrayOfFiles)
  from "2.prems"(2) obtain names where r: "readdirSync fs dirPath = Inr names"
    and f: "forEach_file depth fs dirPath names arrayOfFiles = Inr out"
    by (auto split: sum.splits)
  from "2.IH" [OF r "2.prems"(1) readdirSync_valid [OF r] f] show ?case .
next
  case (3 depth fs dirPath arrayOfFiles)
  then show ?case by simp
next
  case (4 depth fs dirPath name rest arrayOfFiles)
  define filePath where "filePath = path_join dirPath name"
  have v: "valid_name name" and vr: "\<forall>n \<in> set rest. valid_name n" using "4.prems"(2) by simp_all
  have fp: "filePath = dirPath @ ''/'' @ name" and cl: "clean_path filePath"
    using path_join_clean [OF "4.prems"(1) v] by (simp_all add: filePath_def)
  have pf: "prefix (dirPath @ ''/'') filePath" by (simp add: fp)
  from "4.prems"(3) obtain isDir where st: "statSync_isDirectory fs filePath = Inr isDir"
    by (auto simp: filePath_def Let_def split: sum.splits)
  show ?case
  proof (cases isDir)
    case True
    then have t: "isDir = True" by simp
    from True "4.prems"(3) st obtain arr where
      g: "getAllFiles depth fs filePath arrayOfFiles = Inr arr"
      and f: "forEach_file depth fs dirPath rest arr = Inr out"
      by (auto simp: filePath_def Let_def split: sum.splits)
    from "4.IH"(1) [OF filePath_def st t cl g] obtain new1 where
      n1: "arr = arrayOfFiles @ new1" "\<forall>x \<in> set new1. prefix (filePath @ ''/'') x" by blast
    from "4.IH"(2) [OF filePath_def st t g "4.prems"(1) vr f] obtain new2 where
      n2: "out = arr @ new2" "\<forall>x \<in> set new2. prefix (dirPath @ ''/'') x" by blast
    have "\<forall>x \<in> set new1. prefix (dirPath @ ''/'') x"
    proof
      fix x assume "x \<in> set new1"
      with n1(2) have "prefix (filePath @ ''/'') x" by blast
      then have "prefix ((dirPath @ ''/'') @ (name @ ''/'')) x" by (simp add: fp)
      then show "prefix (dirPath @ ''/'') x" by (rule append_prefixD)
    qed
    with n1(1) n2 have "out = arrayOfFiles @ (new1 @ new2)
        \<and> (\<forall>x \<in> set (new1 @ new2). prefix (dirPath @ ''/'') x)" by auto
    then show ?thesis by blast
  next
    case False
    then have t: "isDir = False" by simp
    from False "4.prems"(3) st have
      f: "forEach_file depth fs dirPath rest (arrayOfFiles @ [filePath]) = Inr out"
      by (auto simp: filePath_def Let_def split: sum.splits)
    from "4.IH"(3) [OF filePath_def st t "4.prems"(1) vr f] obtain new2 where
      n2: "out = (arrayOfFiles @ [filePath]) @ new2" "\<forall>x \<in> set new2. prefix (dirPath @ ''/'') x"
      by blast
    with pf have "out = arrayOfFiles @ (filePath # new2)
        \<and> (\<forall>x \<in> set (filePath # new2). prefix (dirPath @ ''/'') x)" by auto
    then show ?thesis by blast
  qed
qed



section \<open>Traces and disks of the operations\<close>

text \<open>
  Each operation appends its own calls to the trace; the lemmas below say which, and
  which files are still there afterwards.
\<close>

lemma emit_trace [simp]: "trace (emit ev w) = trace w @ [ev]"
  by (simp add: emit_def)

lemma emit_disk [simp]: "disk (emit ev w) = disk w"
  by (simp add: emit_def)

lemma copyFileSync_trace [simp]:
  "trace (snd (copyFileSync E a b w)) = trace w @ [CopyFileSync a b]"
  by (simp add: copyFileSync_def Let_def split: sum.splits)

lemma unlinkSync_trace [simp]: "trace (snd (unlinkSync E p w)) = trace w @ [UnlinkSync p]"
  by (simp add: unlinkSync_def Let_def split: sum.splits)

lemma renameSync_trace [simp]:
  "trace (snd (renameSync E a b w)) = trace w @ [RenameSync a b]"
  by (simp add: renameSync_def Let_def split: sum.splits)

lemma sharp_metadata_trace [simp]:
  "trace (snd (sharp_metadata E p w)) = trace w @ [Metadata p]"
  by (simp add: sharp_metadata_def Let_def split: sum.splits content.splits)

lemma sharp_metadata_disk [simp]: "disk (snd (sharp_metadata E p w)) = disk w"
  by (simp add: sharp_metadata_def Let_def split: sum.splits content.splits)

lemma sharp_extract_toFile_trace [simp]:
  "trace (snd (sharp_extract_toFile E p r out w)) = trace w @ [ExtractToFile p r out]"
  by (simp add: sharp_extract_toFile_def Let_def split: sum.splits content.splits)

lemma performOcr_trace [simp]: "trace (snd (performOcr E p w)) = trace w @ [Recognize p]"
  by (simp add: performOcr_def Let_def split: sum.splits option.splits)



lemma checkContentWithOpenAI_trace:
  "trace (snd (checkContentWithOpenAI E t w)) = trace w @ [ChatCompletion (prompt t)]
   \<or> trace (snd (checkContentWithOpenAI E t w))
       = trace w @ [ChatCompletion (prompt t), SetTimeout 15000]"
  by (simp add: checkContentWithOpenAI_def Let_def
      split: api_response.splits list.splits option.splits)

lemma crop_decision_cases:
  "crop_decision width height = NoDimensions \<or> (\<exists>r. crop_decision width height = ExtractRegion r)"
  by (simp add: crop_decision_def)

lemma cropImage_trace:
  "\<exists>evs. trace (snd (cropImage E p w)) = trace w @ Metadata p # evs
     \<and> set evs \<subseteq> {ev. \<exists>r. ev = ExtractToFile p r (p @ ''.tmp'')} \<union> {RenameSync (p @ ''.tmp'') p}"
proof (cases "sharp_metadata E p w")
  case (Pair res w1)
  have t1: "trace w1 = trace w @ [Metadata p]"
    using sharp_metadata_trace [of E p w] Pair by simp
  show ?thesis
  proof (cases res)
    case (Inl e)
    with Pair t1 show ?thesis by (simp add: cropImage_def)
  next
    case (Inr dims)
    obtain width height where dims: "dims = (width, height)" by (cases dims)
    from crop_decision_cases [of width height] show ?thesis
    proof
      assume "crop_decision width height = NoDimensions"
      with Pair Inr dims t1 show ?thesis by (simp add: cropImage_def)
    next
      assume "\<exists>r. crop_decision width height = ExtractRegion r"
      then obtain r where r: "crop_decision width height = ExtractRegion r" ..
      obtain res2 w2 where x: "sharp_extract_toFile E p r (p @ ''.tmp'') w1 = (res2, w2)"
        by (cases "sharp_extract_toFile E p r (p @ ''.tmp'') w1")
      have t2: "trace w2 = trace w1 @ [ExtractToFile p r (p @ ''.tmp'')]"
        using sharp_extract_toFile_trace [of E p r "p @ ''.tmp''" w1] x by simp
      obtain res3 w3 where y: "renameSync E (p @ ''.tmp'') p w2 = (res3, w3)"
        by (cases "renameSync E (p @ ''.tmp'') p w2")
      have t3: "trace w3 = trace w2 @ [RenameSync (p @ ''.tmp'') p]"
        using renameSync_trace [of E "p @ ''.tmp''" p w2] y by simp
      show ?thesis
        using Pair Inr dims r x y t1 t2 t3
        by (cases res2; cases res3) (simp_all add: cropImage_def)
    qed
  qed
qed


lemma is_file_update: "is_file fs p \<Longrightarrow> is_file (AList.update q (File c) fs) p"
  by (auto simp: is_file_def update_conv')

lemma write_file_keeps: "write_file fs q c = Inr fs' \<Longrightarrow> is_file fs p \<Longrightarrow> is_file fs' p"
  by (auto simp: write_file_def is_file_update split: option.splits entry.splits if_splits)

lemma write_file_written: "write_file fs q c = Inr fs' \<Longrightarrow> is_file fs' q"
  by (auto simp: write_file_def is_file_def update_conv' split: option.splits entry.splits if_splits)

lemma copyFileSync_keeps:
  "is_file (disk w) p \<Longrightarrow> is_file (disk (snd (copyFileSync E a b w))) p"
  by (auto simp: copyFileSync_def Let_def write_file_keeps split: sum.splits)

lemma unlinkSync_failed: "fst (unlinkSync E p w) = Inl e \<Longrightarrow> disk (snd (unlinkSync E p w)) = disk w"
  by (auto simp: unlinkSync_def Let_def split: sum.splits if_splits)

lemma quarantine_trace:
  "trace (snd (quarantine E d p w)) = trace w @ [CopyFileSync p (path_join d (path_basename p))]
   \<or> trace (snd (quarantine E d p w))
       = trace w @ [CopyFileSync p (path_join d (path_basename p)), UnlinkSync p]"
proof -
  obtain r w1 where c: "copyFileSync E p (path_join d (path_basename p)) w = (r, w1)"
    by (cases "copyFileSync E p (path_join d (path_basename p)) w")
  have "trace w1 = trace w @ [CopyFileSync p (path_join d (path_basename p))]"
    using copyFileSync_trace [of E p "path_join d (path_basename p)" w] c by simp
  then show ?thesis using c by (cases r) (simp_all add: quarantine_def)
qed

lemma quarantine_failed_keeps:
  assumes "fst (quarantine E d p w) = Inl e" and "is_file (disk w) p"
  shows "is_file (disk (snd (quarantine E d p w))) p"
proof -
  obtain r w1 where c: "copyFileSync E p (path_join d (path_basename p)) w = (r, w1)"
    by (cases "copyFileSync E p (path_join d (path_basename p)) w")
  have k: "is_file (disk w1) p"
    using copyFileSync_keeps [OF assms(2), of E p "path_join d (path_basename p)"] c by simp
  show ?thesis
  proof (cases r)
    case (Inl e')
    with c k show ?thesis by (simp add: quarantine_def)
  next
    case (Inr u)
    with c have q: "quarantine E d p w = unlinkSync E p w1" by (simp add: quarantine_def)
    with assms(1) have "disk (snd (unlinkSync E p w1)) = disk w1" by (simp add: unlinkSync_failed)
    with q k show ?thesis by simp
  qed
qed

lemma quarantine_done_removes:
  assumes "fst (quarantine E d p w) = Inr u"
  shows "map_of (disk (snd (quarantine E d p w))) p = None"
proof -
  obtain r w1 where c: "copyFileSync E p (path_join d (path_basename p)) w = (r, w1)"
    by (cases "copyFileSync E p (path_join d (path_basename p)) w")
  show ?thesis
  proof (cases r)
    case (Inl e')
    with c assms show ?thesis by (simp add: quarantine_def)
  next
    case (Inr u')
    with c have q: "quarantine E d p w = unlinkSync E p w1" by (simp add: quarantine_def)
    with assms show ?thesis
      by (auto simp: unlinkSync_def Let_def remove_file_def delete_conv'
          split: sum.splits if_splits option.splits entry.splits)
  qed
qed

lemma sharp_extract_toFile_keeps:
  "is_file (disk w) p \<Longrightarrow> is_file (disk (snd (sharp_extract_toFile E a r b w))) p"
  by (auto simp: sharp_extract_toFile_def Let_def write_file_keeps split: sum.splits content.splits)

lemma renameSync_keeps_target:
  "is_file (disk w) new \<Longrightarrow> is_file (disk (snd (renameSync E old new w))) new"
  by (auto simp: renameSync_def Let_def write_file_written split: sum.splits)

lemma cropImage_keeps:
  assumes "is_file (disk w) p"
  shows "is_file (disk (snd (cropImage E p w))) p"
proof (cases "sharp_metadata E p w")
  case (Pair res w1)
  have d1: "is_file (disk w1) p"
    using sharp_metadata_disk [of E p w] Pair assms by simp
  show ?thesis
  proof (cases res)
    case (Inl e)
    with Pair d1 show ?thesis by (simp add: cropImage_def)
  next
    case (Inr dims)
    obtain width height where dims: "dims = (width, height)" by (cases dims)
    from crop_decision_cases [of width height] show ?thesis
    proof
      assume "crop_decision width height = NoDimensions"
      with Pair Inr dims d1 show ?thesis by (simp add: cropImage_def)
    next
      assume "\<exists>r. crop_decision width height = ExtractRegion r"
      then obtain r where r: "crop_decision width height = ExtractRegion r" ..
      obtain res2 w2 where x: "sharp_extract_toFile E p r (p @ ''.tmp'') w1 = (res2, w2)"
        by (cases "sharp_extract_toFile E p r (p @ ''.tmp'') w1")
      have d2: "is_file (disk w2) p"
        using sharp_extract_toFile_keeps [OF d1, of E p r "p @ ''.tmp''"] x by simp
      obtain res3 w3 where y: "renameSync E (p @ ''.tmp'') p w2 = (res3, w3)"
        by (cases "renameSync E (p @ ''.tmp'') p w2")
      have d3: "is_file (disk w3) p"
        using renameSync_keeps_target [OF d2, of E "p @ ''.tmp''"] y by simp
      show ?thesis
        using Pair Inr dims r x y d2 d3
        by (cases res2; cases res3) (simp_all add: cropImage_def)
    qed
  qed
qed


lemma events_since_append: "trace w' = trace w @ evs \<Longrightarrow> events_since w w' = evs"
  by (simp add: events_since_def)

lemma process_image_unfold:
  assumes "performOcr E p w = (text, w1)" and "text \<noteq> []"
    and "checkContentWithOpenAI E text w1 = (flagged, w2)"
    and "quarantine E dacy p w2 = (moved, w3)"
  shows "process_image E dacy (w, st) p =
     (if flagged then
        (case moved of
           Inr u \<Rightarrow> (w3, st\<lparr>processed := processed st + 1, filtered := filtered st + 1\<rparr>)
         | Inl e \<Rightarrow> (snd (cropImage E p w3),
                     st\<lparr>processed := processed st + 1, filtered := filtered st + 1\<rparr>))
      else (snd (cropImage E p w2), st\<lparr>processed := processed st + 1\<rparr>))"
  using assms by (simp add: process_image_def Let_def split: sum.splits)

lemma classified_trace:
  assumes "performOcr E p w = (text, w1)"
    and "checkContentWithOpenAI E text w1 = (flagged, w2)"
  shows "\<exists>evs. trace w2 = trace w @ evs \<and> (\<forall>q. Metadata q \<notin> set evs)"
proof -
  have a: "trace w1 = trace w @ [Recognize p]"
    using performOcr_trace [of E p w] assms(1) by simp
  from checkContentWithOpenAI_trace [of E "text" w1] assms(2) a
  have "trace w2 = trace w @ [Recognize p, ChatCompletion (prompt text)]
      \<or> trace w2 = trace w @ [Recognize p, ChatCompletion (prompt text), SetTimeout 15000]"
    by auto
  then show ?thesis by auto
qed

lemma quarantine_trace_no_metadata:
  assumes "quarantine E dacy p w2 = (moved, w3)"
  shows "\<exists>evs. trace w3 = trace w2 @ evs \<and> (\<forall>q. Metadata q \<notin> set evs)"
  using quarantine_trace [of E dacy p w2] assms by auto

lemma cropImage_trace_metadata:
  "\<exists>evs. trace (snd (cropImage E p w)) = trace w @ evs
     \<and> Metadata p \<in> set evs \<and> (\<forall>q. Metadata q \<in> set evs \<longrightarrow> q = p)
     \<and> (\<forall>q. UnlinkSync q \<notin> set evs)"
proof -
  from cropImage_trace [of E p w] obtain evs where
    e: "trace (snd (cropImage E p w)) = trace w @ Metadata p # evs"
      "set evs \<subseteq> {ev. \<exists>r. ev = ExtractToFile p r (p @ ''.tmp'')} \<union> {RenameSync (p @ ''.tmp'') p}"
    by blast
  from e(2) have "(\<forall>q. Metadata q \<notin> set evs) \<and> (\<forall>q. UnlinkSync q \<notin> set evs)" by auto
  with e(1) show ?thesis by (intro exI [of _ "Metadata p # evs"]) auto
qed

lemma process_image_world:
  assumes "performOcr E p w = (text, w1)" and "text \<noteq> []"
    and "checkContentWithOpenAI E text w1 = (flagged, w2)"
    and "quarantine E dacy p w2 = (moved, w3)"
  shows "\<not> flagged \<Longrightarrow> fst (process_image E dacy (w, st) p) = snd (cropImage E p w2)"
    and "flagged \<Longrightarrow> moved = Inr u \<Longrightarrow> fst (process_image E dacy (w, st) p) = w3"
    and "flagged \<Longrightarrow> moved = Inl e \<Longrightarrow>
         fst (process_image E dacy (w, st) p) = snd (cropImage E p w3)"
  using process_image_unfold [OF assms, of st] by simp_all

lemma metadata_events:
  assumes "trace w' = trace w @ (evs @ c)" and "\<forall>q. Metadata q \<notin> set evs"
  shows "Metadata q \<in> set (events_since w w') \<longleftrightarrow> Metadata q \<in> set c"
proof -
  have "events_since w w' = evs @ c" using assms(1) by (rule events_since_append)
  with assms(2) show ?thesis by simp
qed

section \<open>What a run touches\<close>

text \<open>
  The loop body for a file \<open>p\<close> changes the disk at most at \<open>p\<close>, at \<open>p\<close> with \<^verbatim>\<open>.tmp\<close>
  appended and at the path of its copy in the filtered folder, and every call it makes has
  \<open>p\<close> as its subject or none; a run inherits both from its iterations.
\<close>

lemma write_file_frame:
  "write_file fs p c = Inr fs' \<Longrightarrow> q \<noteq> p \<Longrightarrow> map_of fs' q = map_of fs q"
  by (auto simp: write_file_def update_conv' split: option.splits entry.splits if_splits)








text \<open>
  What cropImage does to an image whose crop decision is a region: it reads the metadata,
  writes that region to the temporary file, and, when it returns true, the file at the
  path of the image is that region.
\<close>

lemma write_file_content: "write_file fs q c = Inr fs' \<Longrightarrow> map_of fs' q = Some (File c)"
  by (auto simp: write_file_def update_conv' split: option.splits entry.splits if_splits)

lemma tmp_differs: "p @ ''.tmp'' \<noteq> p"
proof
  assume "p @ ''.tmp'' = p"
  then have "length (p @ ''.tmp'') = length p" by simp
  then show False by simp
qed

lemma image_height_update:
  "\<lparr>picture = picture img, offset_x = offset_x img, offset_y = offset_y img,
    img_width = img_width img, img_height = k\<rparr> = img\<lparr>img_height := k\<rparr>"
  by (cases img) simp

lemma cropImage_extract:
  assumes img: "read_file (disk w) p = Inr (Image img)"
    and nf: "\<not> io_fault E (now w) (Metadata p)"
    and dec: "crop_decision (img_width img) (img_height img) = ExtractRegion r"
  shows "\<exists>rest. events_since w (snd (cropImage E p w))
            = Metadata p # ExtractToFile p r (p @ ''.tmp'') # rest"
    and "fst (cropImage E p w) \<Longrightarrow>
           \<exists>img'. sharp_extract r img = Inr img'
             \<and> read_file (disk (snd (cropImage E p w))) p = Inr (Image img')"
    and "sharp_extract r img = Inr img' \<Longrightarrow>
         \<not> io_fault E (Suc (now w)) (ExtractToFile p r (p @ ''.tmp'')) \<Longrightarrow>
         \<not> io_fault E (Suc (Suc (now w))) (RenameSync (p @ ''.tmp'') p) \<Longrightarrow>
         write_file (disk w) (p @ ''.tmp'') (Image img') = Inr fs' \<Longrightarrow>
         fst (cropImage E p w)"
proof -
  define w1 where "w1 = emit (Metadata p) w"
  have m: "sharp_metadata E p w = (Inr (img_width img, img_height img), w1)"
    using img nf by (simp add: sharp_metadata_def Let_def w1_def)
  have w1: "disk w1 = disk w" "trace w1 = trace w @ [Metadata p]" "now w1 = Suc (now w)"
    by (simp_all add: w1_def now_def)
  obtain res2 w2 where x: "sharp_extract_toFile E p r (p @ ''.tmp'') w1 = (res2, w2)"
    by (cases "sharp_extract_toFile E p r (p @ ''.tmp'') w1")
  have t2: "trace w2 = trace w1 @ [ExtractToFile p r (p @ ''.tmp'')]"
    using sharp_extract_toFile_trace [of E p r "p @ ''.tmp''" w1] x by simp
  obtain res3 w3 where y: "renameSync E (p @ ''.tmp'') p w2 = (res3, w3)"
    by (cases "renameSync E (p @ ''.tmp'') p w2")
  have t3: "trace w3 = trace w2 @ [RenameSync (p @ ''.tmp'') p]"
    using renameSync_trace [of E "p @ ''.tmp''" p w2] y by simp
  have c: "cropImage E p w =
      (case res2 of Inl e \<Rightarrow> (False, w2)
       | Inr u \<Rightarrow> (case res3 of Inl e \<Rightarrow> (False, w3) | Inr u' \<Rightarrow> (True, w3)))"
    using m dec x y by (simp add: cropImage_def split: sum.splits)
  have n2: "now w2 = Suc (Suc (now w))" using t2 w1(2) by (simp add: now_def)
  show "\<exists>rest. events_since w (snd (cropImage E p w))
            = Metadata p # ExtractToFile p r (p @ ''.tmp'') # rest"
  proof (cases res2)
    case (Inl e)
    then have "trace (snd (cropImage E p w))
        = trace w @ (Metadata p # ExtractToFile p r (p @ ''.tmp'') # [])"
      using c t2 w1(2) by simp
    then have "events_since w (snd (cropImage E p w))
        = Metadata p # ExtractToFile p r (p @ ''.tmp'') # []" by (rule events_since_append)
    then show ?thesis by blast
  next
    case (Inr u)
    then have "trace (snd (cropImage E p w))
        = trace w @ (Metadata p # ExtractToFile p r (p @ ''.tmp'') # [RenameSync (p @ ''.tmp'') p])"
      using c t3 t2 w1(2) by (cases res3) simp_all
    then have "events_since w (snd (cropImage E p w))
        = Metadata p # ExtractToFile p r (p @ ''.tmp'') # [RenameSync (p @ ''.tmp'') p]"
      by (rule events_since_append)
    then show ?thesis by blast
  qed
  show "\<exists>img'. sharp_extract r img = Inr img'
      \<and> read_file (disk (snd (cropImage E p w))) p = Inr (Image img')"
    if ok: "fst (cropImage E p w)"
  proof -
    from ok c obtain u u' where r2: "res2 = Inr u" and r3: "res3 = Inr u'"
      by (cases res2; cases res3) simp_all
    from x r2 obtain img' fs' where e: "sharp_extract r img = Inr img'"
      and wf: "write_file (disk w) (p @ ''.tmp'') (Image img') = Inr fs'"
      and d2: "disk w2 = fs'"
      using img w1(1)
      by (auto simp: sharp_extract_toFile_def Let_def split: if_splits sum.splits content.splits)
    have rt: "read_file fs' (p @ ''.tmp'') = Inr (Image img')"
      using write_file_content [OF wf] by (simp add: read_file_def)
    from y r3 rt d2 obtain fs'' where
      wf2: "write_file (AList.delete (p @ ''.tmp'') fs') p (Image img') = Inr fs''"
      and d3: "disk w3 = fs''"
      by (auto simp: renameSync_def Let_def split: if_splits sum.splits)
    have "read_file (disk w3) p = Inr (Image img')"
      using write_file_content [OF wf2] d3 by (simp add: read_file_def)
    with e c r2 r3 show ?thesis by simp
  qed
  show "fst (cropImage E p w)"
    if e: "sharp_extract r img = Inr img'"
      and f2: "\<not> io_fault E (Suc (now w)) (ExtractToFile p r (p @ ''.tmp''))"
      and f3: "\<not> io_fault E (Suc (Suc (now w))) (RenameSync (p @ ''.tmp'') p)"
      and wf: "write_file (disk w) (p @ ''.tmp'') (Image img') = Inr fs'"
  proof -
    have x': "sharp_extract_toFile E p r (p @ ''.tmp'') w1
        = (Inr (), emit (ExtractToFile p r (p @ ''.tmp'')) w1\<lparr>disk := fs'\<rparr>)"
      using img e f2 wf w1 by (simp add: sharp_extract_toFile_def Let_def)
    with x have r2: "res2 = Inr ()" and d2: "disk w2 = fs'" by auto
    have rt: "read_file fs' (p @ ''.tmp'') = Inr (Image img')"
      using write_file_content [OF wf] by (simp add: read_file_def)
    have "map_of fs' p = map_of (disk w) p"
      using write_file_frame [OF wf, of p] tmp_differs [of p] by auto
    then have "map_of (AList.delete (p @ ''.tmp'') fs') p = Some (File (Image img))"
      using img tmp_differs [of p]
      by (auto simp: delete_conv' read_file_def split: option.splits entry.splits)
    then obtain fs'' where
      "write_file (AList.delete (p @ ''.tmp'') fs') p (Image img') = Inr fs''"
      by (simp add: write_file_def)
    then have "fst (renameSync E (p @ ''.tmp'') p w2) = Inr ()"
      using f3 n2 rt d2 by (simp add: renameSync_def Let_def)
    with y have "res3 = Inr ()" by simp
    with c r2 show ?thesis by simp
  qed
qed



lemma process_image_trace:
  "\<exists>evs. trace (fst (process_image E dacy (w, st) p)) = trace w @ evs
     \<and> (\<forall>e \<in> set evs. subject e = None \<or> subject e = Some p)"
proof -
  obtain tx w1 where oc: "performOcr E p w = (tx, w1)" by (cases "performOcr E p w")
  have t1: "trace w1 = trace w @ [Recognize p]" using performOcr_trace [of E p w] oc by simp
  show ?thesis
  proof (cases "tx = []")
    case True
    with oc t1 have "trace (fst (process_image E dacy (w, st) p)) = trace w @ [Recognize p]"
      by (simp add: process_image_def)
    then show ?thesis by auto
  next
    case False
    obtain flagged w2 where c: "checkContentWithOpenAI E tx w1 = (flagged, w2)"
      by (cases "checkContentWithOpenAI E tx w1")
    from checkContentWithOpenAI_trace [of E tx w1] c obtain e2 where
      t2: "trace w2 = trace w1 @ e2" and s2: "\<forall>e \<in> set e2. subject e = None" by auto
    obtain moved w3 where m: "quarantine E dacy p w2 = (moved, w3)"
      by (cases "quarantine E dacy p w2")
    from quarantine_trace [of E dacy p w2] m obtain e3 where
      t3: "trace w3 = trace w2 @ e3" and s3: "\<forall>e \<in> set e3. subject e = Some p" by auto
    have crop: "\<exists>ec. trace (snd (cropImage E p v)) = trace v @ ec
        \<and> (\<forall>e \<in> set ec. subject e = Some p)" for v
    proof -
      from cropImage_trace [of E p v] obtain evs where
        a: "trace (snd (cropImage E p v)) = trace v @ Metadata p # evs"
        and b: "set evs \<subseteq> {ev. \<exists>r. ev = ExtractToFile p r (p @ ''.tmp'')}
                  \<union> {RenameSync (p @ ''.tmp'') p}" by blast
      from b have "\<forall>e \<in> set (Metadata p # evs). subject e = Some p" by auto
      with a show ?thesis by blast
    qed
    note pw = process_image_world [OF oc False c m, where st = st]
    show ?thesis
    proof (cases flagged)
      case False
      from crop [of w2] obtain ec where
        tc: "trace (snd (cropImage E p w2)) = trace w2 @ ec" and sc: "\<forall>e \<in> set ec. subject e = Some p"
        by blast
      have "trace (fst (process_image E dacy (w, st) p)) = trace w @ ([Recognize p] @ e2 @ ec)"
        by (simp only: pw(1) [OF False] tc t2 t1 append_assoc)
      moreover have "\<forall>e \<in> set ([Recognize p] @ e2 @ ec). subject e = None \<or> subject e = Some p"
        using s2 sc by auto
      ultimately show ?thesis by blast
    next
      case True
      show ?thesis
      proof (cases moved)
        case (Inr u)
        have "trace (fst (process_image E dacy (w, st) p)) = trace w @ ([Recognize p] @ e2 @ e3)"
          by (simp only: pw(2) [OF True Inr] t3 t2 t1 append_assoc)
        moreover have "\<forall>e \<in> set ([Recognize p] @ e2 @ e3). subject e = None \<or> subject e = Some p"
          using s2 s3 by auto
        ultimately show ?thesis by blast
      next
        case (Inl e)
        from crop [of w3] obtain ec where
          tc: "trace (snd (cropImage E p w3)) = trace w3 @ ec"
          and sc: "\<forall>e \<in> set ec. subject e = Some p" by blast
        have "trace (fst (process_image E dacy (w, st) p))
            = trace w @ ([Recognize p] @ e2 @ e3 @ ec)"
          by (simp only: pw(3) [OF True Inl] tc t3 t2 t1 append_assoc)
        moreover have "\<forall>e \<in> set ([Recognize p] @ e2 @ e3 @ ec).
            subject e = None \<or> subject e = Some p"
          using s2 s3 sc by auto
        ultimately show ?thesis by blast
      qed
    qed
  qed
qed

lemma run_trace:
  "\<exists>evs. trace (fst (foldl (process_image E dacy) (w, st) paths)) = trace w @ evs
     \<and> (\<forall>e \<in> set evs. subject e = None \<or> (\<exists>p \<in> set paths. subject e = Some p))"
proof (induction paths arbitrary: w st)
  case Nil
  show ?case by simp
next
  case (Cons p paths)
  obtain w1 st1 where s: "process_image E dacy (w, st) p = (w1, st1)"
    by (cases "process_image E dacy (w, st) p")
  from process_image_trace [of E dacy w st p] s obtain e1 where
    t1: "trace w1 = trace w @ e1" and s1: "\<forall>e \<in> set e1. subject e = None \<or> subject e = Some p"
    by auto
  from Cons.IH [of w1 st1] obtain e2 where
    t2: "trace (fst (foldl (process_image E dacy) (w1, st1) paths)) = trace w1 @ e2"
    and s2: "\<forall>e \<in> set e2. subject e = None \<or> (\<exists>p \<in> set paths. subject e = Some p)"
    by blast
  have "trace (fst (foldl (process_image E dacy) (w, st) (p # paths))) = trace w @ (e1 @ e2)"
    using s t1 t2 by simp
  moreover have "\<forall>e \<in> set (e1 @ e2).
      subject e = None \<or> (\<exists>p' \<in> set (p # paths). subject e = Some p')"
    using s1 s2 by auto
  ultimately show ?case by blast
qed





section \<open>Evaluation rules for examples\<close>

text \<open>
  The floor of the double product at the heights of the examples, and the definitions
  that the simplifier unfolds to run the script on a concrete folder.
\<close>

lemma js_floor_mul_0_7_eval:
  assumes "2 ^ k \<le> h * double_0_7" and "h * double_0_7 < 2 ^ Suc k" and "53 \<le> k"
  shows "js_floor_mul_0_7 h =
     (let n = h * double_0_7; s = Suc k - 53; q = n div 2 ^ s; r = n mod 2 ^ s; half = 2 ^ (s - 1)
      in (if r > half \<or> (r = half \<and> odd q) then (q + 1) * 2 ^ s else q * 2 ^ s) div 2 ^ 53)"
proof -
  have "bitlen (h * double_0_7) = Suc k" using assms(1,2) by (rule bitlen_eqI)
  with assms(3) show ?thesis by (simp add: js_floor_mul_0_7_def round_double_def Let_def)
qed

lemma js_floor_mul_0_7_500 [simp]: "js_floor_mul_0_7 500 = 350"
  by (subst js_floor_mul_0_7_eval [of 61]) (simp_all add: double_0_7_def Let_def)

lemma js_floor_mul_0_7_350 [simp]: "js_floor_mul_0_7 350 = 244"
  by (subst js_floor_mul_0_7_eval [of 60]) (simp_all add: double_0_7_def Let_def)

lemma js_floor_mul_0_7_100 [simp]: "js_floor_mul_0_7 100 = 70"
  by (subst js_floor_mul_0_7_eval [of 59]) (simp_all add: double_0_7_def Let_def)

lemma js_floor_mul_0_7_70 [simp]: "js_floor_mul_0_7 70 = 49"
  by (subst js_floor_mul_0_7_eval [of 58]) (simp_all add: double_0_7_def Let_def)

lemma prompt_inj [simp]: "prompt a = prompt b \<longleftrightarrow> a = b"
  by (simp add: prompt_def)

lemmas path_defs = path_join_def path_normalize_def path_basename_def path_extname_def
  valid_name_def child_of_def toLowerCase_def

lemmas fs_defs = existsSync_def readdirSync_def statSync_isDirectory_def has_parent_def
  parent_is_file_def no_parent_def
  read_file_def write_file_def remove_file_def mkdirSync_def copyFileSync_def unlinkSync_def
  renameSync_def now_def emit_def

lemmas prog_defs = performOcr_def checkContentWithOpenAI_def sharp_metadata_def sharp_extract_def
  sharp_extract_toFile_def cropImage_def process_image_def image_extensions_def selected_def
  image_paths_def processImages_def script_def crop_decision_def quarantine_def

lemma getAllFiles_numeral:
  "getAllFiles (numeral k) fs dirPath arrayOfFiles =
     (case readdirSync fs dirPath of
        Inl e \<Rightarrow> Inl e
      | Inr names \<Rightarrow> forEach_file (pred_numeral k) fs dirPath names arrayOfFiles)"
  by (simp add: numeral_eq_Suc)

section \<open>Claims\<close>

text \<open>
  C5: let the file at \<open>p\<close> be an image with \<open>0 < w < h\<close> (portrait) whose metadata can be
  read. Then cropImage reads the metadata of \<open>p\<close> and next asks sharp to extract the region
  anchored at the top-left corner, of width \<open>w\<close> and height \<open>w\<close>, into the temporary file;
  whenever cropImage returns true the file at \<open>p\<close> is that square top part of the image;
  and it does return true when neither the extraction nor the rename fails and the
  temporary file can be written.
\<close>

theorem C5_portrait_square:
  assumes "read_file (disk wd) p = Inr (Image img)"
    and "\<not> io_fault E (now wd) (Metadata p)"
    and "0 < img_width img" and "img_width img < img_height img"
  shows "(\<exists>rest. events_since wd (snd (cropImage E p wd)) =
            Metadata p
            # ExtractToFile p \<lparr>rg_left = 0, rg_top = 0, rg_width = img_width img,
                               rg_height = img_width img\<rparr> (p @ ''.tmp'')
            # rest)
       \<and> (fst (cropImage E p wd) \<longrightarrow>
            read_file (disk (snd (cropImage E p wd))) p
              = Inr (Image (img\<lparr>img_height := img_width img\<rparr>)))
       \<and> (\<not> io_fault E (now wd + 1)
              (ExtractToFile p \<lparr>rg_left = 0, rg_top = 0, rg_width = img_width img,
                                 rg_height = img_width img\<rparr> (p @ ''.tmp''))
          \<and> \<not> io_fault E (now wd + 2) (RenameSync (p @ ''.tmp'') p)
          \<and> (\<exists>fs'. write_file (disk wd) (p @ ''.tmp'')
                      (Image (img\<lparr>img_height := img_width img\<rparr>)) = Inr fs')
          \<longrightarrow> fst (cropImage E p wd))"
proof -
  let ?r = "\<lparr>rg_left = 0, rg_top = 0, rg_width = img_width img, rg_height = img_width img\<rparr>"
  have dec: "crop_decision (img_width img) (img_height img) = ExtractRegion ?r"
    using assms(3,4) by (simp add: crop_decision_def)
  have ex: "sharp_extract ?r img = Inr (img\<lparr>img_height := img_width img\<rparr>)"
    using assms(3,4) by (simp add: sharp_extract_def image_height_update)
  note c = cropImage_extract [OF assms(1,2) dec]
  from c(2) ex have "fst (cropImage E p wd) \<longrightarrow>
      read_file (disk (snd (cropImage E p wd))) p
        = Inr (Image (img\<lparr>img_height := img_width img\<rparr>))" by auto
  moreover from c(3) [OF ex] have
     "\<not> io_fault E (now wd + 1) (ExtractToFile p ?r (p @ ''.tmp''))
      \<and> \<not> io_fault E (now wd + 2) (RenameSync (p @ ''.tmp'') p)
      \<and> (\<exists>fs'. write_file (disk wd) (p @ ''.tmp'')
                  (Image (img\<lparr>img_height := img_width img\<rparr>)) = Inr fs')
      \<longrightarrow> fst (cropImage E p wd)" by auto
  ultimately show ?thesis using c(1) by blast
qed

theorem C5_portrait_square_witness:
  "read_file (disk mixed_folder) ''imgs/sub/b.jpeg'' = Inr (Image image_b)
   \<and> \<not> io_fault benign_env (now mixed_folder) (Metadata ''imgs/sub/b.jpeg'')
   \<and> 0 < img_width image_b \<and> img_width image_b < img_height image_b
   \<and> img_width image_b = 400
   \<and> events_since mixed_folder (snd (cropImage benign_env ''imgs/sub/b.jpeg'' mixed_folder)) =
       [Metadata ''imgs/sub/b.jpeg'',
        ExtractToFile ''imgs/sub/b.jpeg''
          \<lparr>rg_left = 0, rg_top = 0, rg_width = 400, rg_height = 400\<rparr> ''imgs/sub/b.jpeg.tmp'',
        RenameSync ''imgs/sub/b.jpeg.tmp'' ''imgs/sub/b.jpeg'']
   \<and> fst (cropImage benign_env ''imgs/sub/b.jpeg'' mixed_folder)
   \<and> read_file (disk (snd (cropImage benign_env ''imgs/sub/b.jpeg'' mixed_folder)))
        ''imgs/sub/b.jpeg'' = Inr (Image (image_b\<lparr>img_height := 400\<rparr>))"
proof -
  let ?p = "''imgs/sub/b.jpeg''"
  have h1: "read_file (disk mixed_folder) ?p = Inr (Image image_b)"
    by (simp add: mixed_folder_def read_file_def)
  have h2: "\<not> io_fault benign_env (now mixed_folder) (Metadata ?p)"
    by (simp add: benign_env_def)
  have h3: "0 < img_width image_b" and h4: "img_width image_b < img_height image_b"
    and h5: "img_width image_b = 400"
    by (simp_all add: image_b_def)
  have ok: "fst (cropImage benign_env ?p mixed_folder)"
    and ev: "events_since mixed_folder (snd (cropImage benign_env ?p mixed_folder)) =
       [Metadata ?p,
        ExtractToFile ?p \<lparr>rg_left = 0, rg_top = 0, rg_width = 400, rg_height = 400\<rparr>
          ''imgs/sub/b.jpeg.tmp'',
        RenameSync ''imgs/sub/b.jpeg.tmp'' ?p]"
    by (simp_all add: benign_env_def mixed_folder_def image_b_def image_a_def events_since_def
        path_defs fs_defs prog_defs Let_def)
  from C5_portrait_square [OF h1 h2 h3 h4] ok h5
  have "read_file (disk (snd (cropImage benign_env ?p mixed_folder))) ?p
      = Inr (Image (image_b\<lparr>img_height := 400\<rparr>))" by simp
  with h1 h2 h3 h4 h5 ok ev show ?thesis by simp
qed

text \<open>
  C3: for every input text, if the classification call fails for whatever reason,
  checkContentWithOpenAI makes that one call, sets one timer of 15000 ms and returns
  \<open>False\<close>; no second request is made.
\<close>

theorem C3_failure_waits_once_returns_false:
  "call_failed (openai E (now w) (prompt text)) \<Longrightarrow>
   checkContentWithOpenAI E text w =
     (False, w\<lparr>trace := trace w @ [ChatCompletion (prompt text), SetTimeout 15000]\<rparr>)"
  by (auto simp: call_failed_def checkContentWithOpenAI_def emit_def
      split: api_response.splits list.splits option.splits)

theorem C3_failure_waits_once_returns_false_witness:
  "call_failed (openai outage_env (now shop_folder) (prompt ''hello''))
   \<and> checkContentWithOpenAI outage_env ''hello'' shop_folder =
     (False, shop_folder\<lparr>trace := [ChatCompletion (prompt ''hello''), SetTimeout 15000]\<rparr>)"
  using C3_failure_waits_once_returns_false [of outage_env shop_folder "''hello''"]
  by (simp add: outage_env_def benign_env_def call_failed_def shop_folder_def)

text \<open>
  C8: for every file whose extracted text is the empty string, the loop body only counts
  the file as processed: the only call made is the OCR call (no classification request),
  the disk is unchanged and the counter of filtered files is unchanged.
\<close>

theorem C8_empty_text_skips:
  assumes "fst (performOcr E imagePath w) = []"
  shows "process_image E dacyFolder (w, st) imagePath =
           (w\<lparr>trace := trace w @ [Recognize imagePath]\<rparr>, st\<lparr>processed := processed st + 1\<rparr>)
       \<and> disk (fst (process_image E dacyFolder (w, st) imagePath)) = disk w
       \<and> filtered (snd (process_image E dacyFolder (w, st) imagePath)) = filtered st
       \<and> events_since w (fst (process_image E dacyFolder (w, st) imagePath))
           = [Recognize imagePath]"
  using assms
  by (auto simp: process_image_def performOcr_def Let_def emit_def events_since_def
      split: sum.splits option.splits prod.splits)

theorem C8_empty_text_skips_witness:
  "fst (performOcr blind_env ''imgs/a.png'' shop_folder) = []
   \<and> process_image blind_env ''imgs/dacy'' (shop_folder, \<lparr>processed = 0, filtered = 0\<rparr>) ''imgs/a.png''
       = (shop_folder\<lparr>trace := [Recognize ''imgs/a.png'']\<rparr>, \<lparr>processed = 1, filtered = 0\<rparr>)"
proof -
  have h: "fst (performOcr blind_env ''imgs/a.png'' shop_folder) = []"
    by (simp add: performOcr_def blind_env_def benign_env_def shop_folder_def read_file_def)
  from C8_empty_text_skips [OF h, of "''imgs/dacy''" "\<lparr>processed = 0, filtered = 0\<rparr>"] h
  show ?thesis by (simp add: shop_folder_def)
qed

text \<open>
  C2: for every image with positive width and height one of the first two conditions of
  the crop decision holds, so the decision is never to delete the file; and whatever the
  file and the environment, cropImage never calls \<^verbatim>\<open>unlinkSync\<close>.
\<close>

theorem C2_delete_branch_unreachable:
  "(0 < width \<longrightarrow> 0 < height \<longrightarrow>
      (height \<le> width \<or> height > width) \<and> crop_decision width height \<noteq> DeleteFile)
   \<and> (\<forall>q. UnlinkSync q \<notin> set (events_since w (snd (cropImage E p w))))"
proof -
  from cropImage_trace_metadata [of E p w] obtain evs where
    "trace (snd (cropImage E p w)) = trace w @ evs" and "\<forall>q. UnlinkSync q \<notin> set evs"
    by blast
  then have "\<forall>q. UnlinkSync q \<notin> set (events_since w (snd (cropImage E p w)))"
    by (simp add: events_since_append)
  moreover have "crop_decision width height \<noteq> DeleteFile"
    using crop_decision_cases [of width height] by auto
  ultimately show ?thesis by auto
qed

theorem C2_delete_branch_unreachable_witness:
  "(0::nat) < 3 \<and> (0::nat) < 7 \<and> ((7::nat) \<le> 3 \<or> (7::nat) > 3)
   \<and> crop_decision 3 7 \<noteq> DeleteFile
   \<and> (\<forall>q. UnlinkSync q \<notin> set (events_since shop_folder
              (snd (cropImage benign_env ''imgs/a.png'' shop_folder))))"
  using C2_delete_branch_unreachable [of 3 7 shop_folder benign_env "''imgs/a.png''"]
  by simp

text \<open>
  C4, as stated: for every image with positive dimensions and \<open>h \<le> w\<close> the crop has height
  \<open>\<lfloor>h \<times> 0.7\<rfloor>\<close>. It fails for a 100 by 90 image: the double product \<^verbatim>\<open>90 * 0.7\<close> is
  \<^verbatim>\<open>62.99999999999999\<close>, so cropImage extracts a region 62 rows high and leaves a 100 by
  62 image, where \<open>\<lfloor>90 \<times> 0.7\<rfloor>\<close> is 63.
\<close>

theorem C4_counterexample:
  "read_file (disk wide_folder) ''imgs/c.png'' = Inr (Image image_c)
   \<and> 0 < img_width image_c \<and> 0 < img_height image_c \<and> img_height image_c \<le> img_width image_c
   \<and> img_height image_c = 90
   \<and> nat \<lfloor>real 90 * 0.7\<rfloor> = 63
   \<and> cropImage benign_env ''imgs/c.png'' wide_folder =
       (True,
        \<lparr>disk = [(''imgs'', Directory),
                  (''imgs/c.png'', File (Image (image_c\<lparr>img_height := 62\<rparr>))),
                  (''imgs/dacy'', Directory)],
         trace = [Metadata ''imgs/c.png'',
                  ExtractToFile ''imgs/c.png''
                    \<lparr>rg_left = 0, rg_top = 0, rg_width = 100, rg_height = 62\<rparr>
                    ''imgs/c.png.tmp'',
                  RenameSync ''imgs/c.png.tmp'' ''imgs/c.png'']\<rparr>)
   \<and> crop_decision 100 90 \<noteq>
       ExtractRegion \<lparr>rg_left = 0, rg_top = 0, rg_width = 100,
                      rg_height = nat \<lfloor>real 90 * 0.7\<rfloor>\<rparr>"
  by (simp add: benign_env_def wide_folder_def image_c_def js_floor_mul_0_7_90
      path_defs fs_defs prog_defs Let_def)

text \<open>
  C4, amended: let the file at \<open>p\<close> be an image with \<open>0 < h \<le> w\<close> (landscape or square)
  whose metadata can be read. Then cropImage reads the metadata of \<open>p\<close> and next asks sharp
  to extract the region anchored at the top-left corner, of the original width and of
  height \<^verbatim>\<open>Math.floor(h * 0.7)\<close> computed on doubles, into the temporary file; whenever
  cropImage returns true the file at \<open>p\<close> is that top part of the image; and it does
  return true when that height is not 0, neither the extraction nor the rename fails and
  the temporary file can be written. For heights below \<open>2 ^ 32\<close> that height is
  \<open>\<lfloor>7 h / 10\<rfloor>\<close> or one less, and it is \<open>\<lfloor>7 h / 10\<rfloor>\<close> whenever \<open>h\<close> is not a multiple
  of 10.
\<close>

theorem C4_landscape_top_crop:
  assumes "read_file (disk wd) p = Inr (Image img)"
    and "\<not> io_fault E (now wd) (Metadata p)"
    and "0 < img_width img" and "0 < img_height img" and "img_height img \<le> img_width img"
  shows "(\<exists>rest. events_since wd (snd (cropImage E p wd)) =
            Metadata p
            # ExtractToFile p \<lparr>rg_left = 0, rg_top = 0, rg_width = img_width img,
                               rg_height = js_floor_mul_0_7 (img_height img)\<rparr> (p @ ''.tmp'')
            # rest)
       \<and> (fst (cropImage E p wd) \<longrightarrow>
            read_file (disk (snd (cropImage E p wd))) p
              = Inr (Image (img\<lparr>img_height := js_floor_mul_0_7 (img_height img)\<rparr>)))
       \<and> (0 < js_floor_mul_0_7 (img_height img) \<and> img_height img < 2 ^ 32
          \<and> \<not> io_fault E (now wd + 1)
              (ExtractToFile p \<lparr>rg_left = 0, rg_top = 0, rg_width = img_width img,
                                 rg_height = js_floor_mul_0_7 (img_height img)\<rparr> (p @ ''.tmp''))
          \<and> \<not> io_fault E (now wd + 2) (RenameSync (p @ ''.tmp'') p)
          \<and> (\<exists>fs'. write_file (disk wd) (p @ ''.tmp'')
                      (Image (img\<lparr>img_height := js_floor_mul_0_7 (img_height img)\<rparr>)) = Inr fs')
          \<longrightarrow> fst (cropImage E p wd))
       \<and> (img_height img < 2 ^ 32 \<longrightarrow>
            js_floor_mul_0_7 (img_height img) \<le> 7 * img_height img div 10
            \<and> 7 * img_height img div 10 \<le> js_floor_mul_0_7 (img_height img) + 1
            \<and> (img_height img mod 10 \<noteq> 0
                \<longrightarrow> js_floor_mul_0_7 (img_height img) = 7 * img_height img div 10))"
proof -
  let ?h = "js_floor_mul_0_7 (img_height img)"
  let ?r = "\<lparr>rg_left = 0, rg_top = 0, rg_width = img_width img, rg_height = ?h\<rparr>"
  have dec: "crop_decision (img_width img) (img_height img) = ExtractRegion ?r"
    using assms(3-5) by (simp add: crop_decision_def)
  note c = cropImage_extract [OF assms(1,2) dec]
  have ex: "sharp_extract ?r img = Inr (img\<lparr>img_height := ?h\<rparr>)"
    if "0 < ?h" and "img_height img < 2 ^ 32"
    using that assms(3,4) js_floor_mul_0_7_less [of "img_height img"]
    by (simp add: sharp_extract_def image_height_update)
  have a: "fst (cropImage E p wd) \<longrightarrow>
      read_file (disk (snd (cropImage E p wd))) p = Inr (Image (img\<lparr>img_height := ?h\<rparr>))"
  proof
    assume "fst (cropImage E p wd)"
    from c(2) [OF this] obtain img' where
      e: "sharp_extract ?r img = Inr img'"
      and r: "read_file (disk (snd (cropImage E p wd))) p = Inr (Image img')" by blast
    from e have "img' = img\<lparr>img_height := ?h\<rparr>"
      by (simp add: sharp_extract_def image_height_update split: if_splits)
    with r show "read_file (disk (snd (cropImage E p wd))) p
        = Inr (Image (img\<lparr>img_height := ?h\<rparr>))" by simp
  qed
  have b: "0 < ?h \<and> img_height img < 2 ^ 32
      \<and> \<not> io_fault E (now wd + 1) (ExtractToFile p ?r (p @ ''.tmp''))
      \<and> \<not> io_fault E (now wd + 2) (RenameSync (p @ ''.tmp'') p)
      \<and> (\<exists>fs'. write_file (disk wd) (p @ ''.tmp'') (Image (img\<lparr>img_height := ?h\<rparr>)) = Inr fs')
      \<longrightarrow> fst (cropImage E p wd)"
    using c(3) ex by auto
  have d: "img_height img < 2 ^ 32 \<longrightarrow>
      ?h \<le> 7 * img_height img div 10 \<and> 7 * img_height img div 10 \<le> ?h + 1
      \<and> (img_height img mod 10 \<noteq> 0 \<longrightarrow> ?h = 7 * img_height img div 10)"
    using js_floor_mul_0_7_bounds [of "img_height img"] js_floor_mul_0_7_exact [of "img_height img"]
    by simp
  from c(1) a b d show ?thesis by blast
qed

theorem C4_landscape_top_crop_witness:
  "read_file (disk shop_folder) ''imgs/a.png'' = Inr (Image image_a)
   \<and> \<not> io_fault benign_env (now shop_folder) (Metadata ''imgs/a.png'')
   \<and> 0 < img_width image_a \<and> 0 < img_height image_a \<and> img_height image_a \<le> img_width image_a
   \<and> img_height image_a < 2 ^ 32
   \<and> js_floor_mul_0_7 (img_height image_a) = 350
   \<and> events_since shop_folder (snd (cropImage benign_env ''imgs/a.png'' shop_folder)) =
       [Metadata ''imgs/a.png'',
        ExtractToFile ''imgs/a.png''
          \<lparr>rg_left = 0, rg_top = 0, rg_width = 1000, rg_height = 350\<rparr> ''imgs/a.png.tmp'',
        RenameSync ''imgs/a.png.tmp'' ''imgs/a.png'']
   \<and> fst (cropImage benign_env ''imgs/a.png'' shop_folder)
   \<and> read_file (disk (snd (cropImage benign_env ''imgs/a.png'' shop_folder))) ''imgs/a.png''
       = Inr (Image (image_a\<lparr>img_height := 350\<rparr>))"
proof -
  let ?p = "''imgs/a.png''"
  have h1: "read_file (disk shop_folder) ?p = Inr (Image image_a)"
    by (simp add: shop_folder_def read_file_def)
  have h2: "\<not> io_fault benign_env (now shop_folder) (Metadata ?p)"
    by (simp add: benign_env_def)
  have h3: "0 < img_width image_a" and h4: "0 < img_height image_a"
    and h5: "img_height image_a \<le> img_width image_a" and h6: "img_height image_a < 2 ^ 32"
    and h7: "js_floor_mul_0_7 (img_height image_a) = 350"
    by (simp_all add: image_a_def)
  have ok: "fst (cropImage benign_env ?p shop_folder)"
    and ev: "events_since shop_folder (snd (cropImage benign_env ?p shop_folder)) =
       [Metadata ?p,
        ExtractToFile ?p \<lparr>rg_left = 0, rg_top = 0, rg_width = 1000, rg_height = 350\<rparr>
          ''imgs/a.png.tmp'',
        RenameSync ''imgs/a.png.tmp'' ?p]"
    by (simp_all add: benign_env_def shop_folder_def image_a_def events_since_def
        path_defs fs_defs prog_defs Let_def)
  from C4_landscape_top_crop [OF h1 h2 h3 h4 h5] ok h7
  have "read_file (disk (snd (cropImage benign_env ?p shop_folder))) ?p
      = Inr (Image (image_a\<lparr>img_height := 350\<rparr>))" by simp
  with h1 h2 h3 h4 h5 h6 h7 ok ev show ?thesis by simp
qed

lemma loop_body_metadata:
  assumes "performOcr E p w = (text, w1)" and "text \<noteq> []"
    and "checkContentWithOpenAI E text w1 = (flagged, w2)"
    and "quarantine E dacy p w2 = (moved, w3)"
  shows "(Metadata p \<in> set (events_since w (fst (process_image E dacy (w, st) p)))
          \<longleftrightarrow> \<not> flagged \<or> (\<exists>e. moved = Inl e))
       \<and> (\<forall>q. Metadata q \<in> set (events_since w (fst (process_image E dacy (w, st) p)))
            \<longrightarrow> q = p)"
proof -
  define w' where "w' = fst (process_image E dacy (w, st) p)"
  from classified_trace [OF assms(1,3)] obtain evs2 where
    t2: "trace w2 = trace w @ evs2" and n2: "\<forall>q. Metadata q \<notin> set evs2" by blast
  from quarantine_trace_no_metadata [OF assms(4)] obtain evs3 where
    t3: "trace w3 = trace w2 @ evs3" and n3: "\<forall>q. Metadata q \<notin> set evs3" by blast
  have n23: "\<forall>q. Metadata q \<notin> set (evs2 @ evs3)" using n2 n3 by simp
  from cropImage_trace_metadata [of E p w2] obtain c2 where
    c2: "trace (snd (cropImage E p w2)) = trace w2 @ c2" "Metadata p \<in> set c2"
      "\<forall>q. Metadata q \<in> set c2 \<longrightarrow> q = p" by blast
  from cropImage_trace_metadata [of E p w3] obtain c3 where
    c3: "trace (snd (cropImage E p w3)) = trace w3 @ c3" "Metadata p \<in> set c3"
      "\<forall>q. Metadata q \<in> set c3 \<longrightarrow> q = p" by blast
  note pw = process_image_world [OF assms, where st = st, folded w'_def]
  have "(Metadata p \<in> set (events_since w w') \<longleftrightarrow> \<not> flagged \<or> (\<exists>e. moved = Inl e))
       \<and> (\<forall>q. Metadata q \<in> set (events_since w w') \<longrightarrow> q = p)"
  proof (cases flagged)
    case False
    have "trace w' = trace w @ (evs2 @ c2)"
      by (simp only: pw(1) [OF False] c2(1) t2 append_assoc)
    from metadata_events [OF this n2] have "\<And>q. Metadata q \<in> set (events_since w w') \<longleftrightarrow> Metadata q \<in> set c2" .
    with c2(2,3) False show ?thesis by blast
  next
    case True
    show ?thesis
    proof (cases moved)
      case (Inr u')
      have "trace w' = trace w @ ((evs2 @ evs3) @ [])"
        by (simp only: pw(2) [OF True Inr] t3 t2 append_assoc append_Nil2)
      from metadata_events [OF this n23] have "\<And>q. Metadata q \<notin> set (events_since w w')" by simp
      with True Inr show ?thesis by blast
    next
      case (Inl e)
      have "trace w' = trace w @ ((evs2 @ evs3) @ c3)"
        by (simp only: pw(3) [OF True Inl] c3(1) t3 t2 append_assoc)
      from metadata_events [OF this n23] have "\<And>q. Metadata q \<in> set (events_since w w') \<longleftrightarrow> Metadata q \<in> set c3" .
      with c3(2,3) True Inl show ?thesis by blast
    qed
  qed
  then show ?thesis unfolding w'_def .
qed

text \<open>
  C6: take a run over a list of files in which \<open>p\<close> occurs once, and let \<open>p\<close> reach
  classification (its extracted text is not empty). Then cropImage is called on \<open>p\<close>
  somewhere in the run exactly when the verdict for \<open>p\<close> is not flagged or the quarantine
  block threw; so it is never called on a file that is flagged and moved. The call of
  cropImage is observed by its first action, the metadata read of that path.
\<close>

theorem C6_quarantine_is_terminal:
  assumes "p \<notin> set before" and "p \<notin> set after"
    and "foldl (process_image E dacy) (w0, st0) before = (w, st)"
    and "performOcr E p w = (text, w1)" and "text \<noteq> []"
    and "checkContentWithOpenAI E text w1 = (flagged, w2)"
    and "quarantine E dacy p w2 = (moved, w3)"
  shows "Metadata p \<in> set (events_since w0
            (fst (foldl (process_image E dacy) (w0, st0) (before @ p # after))))
         \<longleftrightarrow> \<not> flagged \<or> (\<exists>e. moved = Inl e)"
proof -
  obtain wp stp where ip: "process_image E dacy (w, st) p = (wp, stp)"
    by (cases "process_image E dacy (w, st) p")
  define final where "final = fst (foldl (process_image E dacy) (wp, stp) after)"
  have fin: "fst (foldl (process_image E dacy) (w0, st0) (before @ p # after)) = final"
    using assms(3) ip by (simp add: final_def)
  from run_trace [of E dacy w0 st0 before] assms(3) obtain eb where
    tb: "trace w = trace w0 @ eb"
    and sb: "\<forall>e \<in> set eb. subject e = None \<or> (\<exists>p' \<in> set before. subject e = Some p')"
    by auto
  from process_image_trace [of E dacy w st p] ip obtain ep where
    tp: "trace wp = trace w @ ep" by auto
  from run_trace [of E dacy wp stp after] obtain ea where
    ta: "trace final = trace wp @ ea"
    and sa: "\<forall>e \<in> set ea. subject e = None \<or> (\<exists>p' \<in> set after. subject e = Some p')"
    unfolding final_def by blast
  have nb: "Metadata p \<notin> set eb"
  proof
    assume "Metadata p \<in> set eb"
    with sb have "subject (Metadata p) = None \<or> (\<exists>p' \<in> set before. subject (Metadata p) = Some p')"
      by blast
    with assms(1) show False by simp
  qed
  have na: "Metadata p \<notin> set ea"
  proof
    assume "Metadata p \<in> set ea"
    with sa have "subject (Metadata p) = None \<or> (\<exists>p' \<in> set after. subject (Metadata p) = Some p')"
      by blast
    with assms(2) show False by simp
  qed
  have "events_since w wp = ep" using tp by (rule events_since_append)
  with loop_body_metadata [OF assms(4-7), of st] ip
  have mp: "Metadata p \<in> set ep \<longleftrightarrow> \<not> flagged \<or> (\<exists>e. moved = Inl e)" by simp
  have "trace final = trace w0 @ (eb @ ep @ ea)" by (simp only: ta tp tb append_assoc)
  then have "events_since w0 final = eb @ ep @ ea" by (rule events_since_append)
  with nb na mp show ?thesis unfolding fin by simp
qed

theorem C6_quarantine_is_terminal_witness:
  "''imgs/x/a.png'' \<notin> set []
   \<and> ''imgs/x/a.png'' \<notin> set [''imgs/y/a.png'']
   \<and> foldl (process_image caption_env ''imgs/dacy'')
        (twin_folder, \<lparr>processed = 0, filtered = 0\<rparr>) []
      = (twin_folder, \<lparr>processed = 0, filtered = 0\<rparr>)
   \<and> performOcr caption_env ''imgs/x/a.png'' twin_folder
      = (''war'', twin_folder\<lparr>trace := [Recognize ''imgs/x/a.png'']\<rparr>)
   \<and> ''war'' \<noteq> []
   \<and> checkContentWithOpenAI caption_env ''war'' (twin_folder\<lparr>trace := [Recognize ''imgs/x/a.png'']\<rparr>)
      = (True, twin_folder\<lparr>trace := [Recognize ''imgs/x/a.png'', ChatCompletion (prompt ''war'')]\<rparr>)
   \<and> fst (quarantine caption_env ''imgs/dacy'' ''imgs/x/a.png''
         (twin_folder\<lparr>trace := [Recognize ''imgs/x/a.png'', ChatCompletion (prompt ''war'')]\<rparr>))
      = Inr ()
   \<and> foldl (process_image caption_env ''imgs/dacy'')
        (twin_folder, \<lparr>processed = 0, filtered = 0\<rparr>) [''imgs/x/a.png'', ''imgs/y/a.png'']
      = (twin_folder_processed, \<lparr>processed = 2, filtered = 1\<rparr>)
   \<and> Metadata ''imgs/x/a.png'' \<notin> set (events_since twin_folder twin_folder_processed)
   \<and> Metadata ''imgs/y/a.png'' \<in> set (events_since twin_folder twin_folder_processed)"
proof -
  let ?p = "''imgs/x/a.png''"
  let ?st = "\<lparr>processed = 0, filtered = 0\<rparr>"
  let ?w1 = "twin_folder\<lparr>trace := [Recognize ?p]\<rparr>"
  let ?w2 = "twin_folder\<lparr>trace := [Recognize ?p, ChatCompletion (prompt ''war'')]\<rparr>"
  have b: "?p \<notin> set []" and a: "?p \<notin> set [''imgs/y/a.png'']" by simp_all
  have h0: "foldl (process_image caption_env ''imgs/dacy'') (twin_folder, ?st) []
      = (twin_folder, ?st)" by simp
  have h1: "performOcr caption_env ?p twin_folder = (''war'', ?w1)"
    by (simp add: caption_env_def twin_folder_def image_x_def performOcr_def fs_defs)
  have h2: "''war'' \<noteq> []" by simp
  have h3: "checkContentWithOpenAI caption_env ''war'' ?w1 = (True, ?w2)"
    by (simp add: caption_env_def twin_folder_def checkContentWithOpenAI_def fs_defs
        toLowerCase_def)
  obtain w3 where h4: "quarantine caption_env ''imgs/dacy'' ?p ?w2 = (Inr (), w3)"
    by (simp add: caption_env_def twin_folder_def quarantine_def fs_defs path_defs Let_def)
  have r: "foldl (process_image caption_env ''imgs/dacy'') (twin_folder, ?st)
      ([] @ ?p # [''imgs/y/a.png'']) = (twin_folder_processed, \<lparr>processed = 2, filtered = 1\<rparr>)"
    by (simp add: caption_env_def twin_folder_def twin_folder_processed_def image_x_def
        image_y_def path_defs fs_defs prog_defs Let_def)
  have y: "Metadata ''imgs/y/a.png'' \<in> set (events_since twin_folder twin_folder_processed)"
    by (simp add: events_since_def twin_folder_def twin_folder_processed_def)
  from C6_quarantine_is_terminal [OF b a h0 h1 h2 h3 h4] r
  have "Metadata ?p \<notin> set (events_since twin_folder twin_folder_processed)" by simp
  with b a h0 h1 h2 h3 h4 r y show ?thesis by simp
qed

text \<open>
  C1: a file whose move into the filtered folder fails is not to be counted as filtered.
  processImages increments the counter (line 151) before the \<^verbatim>\<open>try\<close> block that copies and
  deletes, so a failed move is counted all the same. In a folder with one flagged image
  whose copy throws, the run ends with the counter of filtered files at 1, which the
  summary line reports as \<^verbatim>\<open>Filtered 1 images containing sensitive content\<close>, while the
  filtered folder is empty; the source file is still in place, cropped by the cropImage
  call that follows the failed move.
\<close>

theorem C1_failed_move_is_counted:
  "io_fault copy_fault_env 2 (CopyFileSync ''imgs/a.png'' ''imgs/dacy/a.png'')
   \<and> script copy_fault_env ''imgs'' shop_folder =
     (Finished \<lparr>processed = 1, filtered = 1\<rparr>,
      \<lparr>disk = [(''imgs'', Directory),
                (''imgs/a.png'', File (Image (image_a\<lparr>img_height := 350\<rparr>))),
                (''imgs/dacy'', Directory)],
       trace = [Recognize ''imgs/a.png'', ChatCompletion (prompt ''hello''),
                CopyFileSync ''imgs/a.png'' ''imgs/dacy/a.png'',
                Metadata ''imgs/a.png'',
                ExtractToFile ''imgs/a.png''
                  \<lparr>rg_left = 0, rg_top = 0, rg_width = 1000, rg_height = 350\<rparr>
                  ''imgs/a.png.tmp'',
                RenameSync ''imgs/a.png.tmp'' ''imgs/a.png'']\<rparr>)
   \<and> readdirSync (disk (snd (script copy_fault_env ''imgs'' shop_folder))) ''imgs/dacy'' = Inr []"
proof -
  have r: "script copy_fault_env ''imgs'' shop_folder =
     (Finished \<lparr>processed = 1, filtered = 1\<rparr>,
      \<lparr>disk = [(''imgs'', Directory),
                (''imgs/a.png'', File (Image (image_a\<lparr>img_height := 350\<rparr>))),
                (''imgs/dacy'', Directory)],
       trace = [Recognize ''imgs/a.png'', ChatCompletion (prompt ''hello''),
                CopyFileSync ''imgs/a.png'' ''imgs/dacy/a.png'',
                Metadata ''imgs/a.png'',
                ExtractToFile ''imgs/a.png''
                  \<lparr>rg_left = 0, rg_top = 0, rg_width = 1000, rg_height = 350\<rparr>
                  ''imgs/a.png.tmp'',
                RenameSync ''imgs/a.png.tmp'' ''imgs/a.png'']\<rparr>)"
    by (simp add: copy_fault_env_def flagging_env_def benign_env_def shop_folder_def image_a_def
        path_defs fs_defs prog_defs getAllFiles_numeral Let_def)
  have f: "io_fault copy_fault_env 2 (CopyFileSync ''imgs/a.png'' ''imgs/dacy/a.png'')"
    by (simp add: copy_fault_env_def flagging_env_def benign_env_def)
  have e: "readdirSync (disk (snd (script copy_fault_env ''imgs'' shop_folder))) ''imgs/dacy''
      = Inr []"
    unfolding r by (simp add: path_defs fs_defs)
  from f r e show ?thesis by (intro conjI)
qed

lemma image_paths_selected:
  "image_paths depth fs folder = Inr paths \<Longrightarrow> path \<in> set paths \<Longrightarrow> selected folder path"
  by (auto simp: image_paths_def split: sum.splits)

lemma under_dacy_includes:
  assumes "getAllFiles k fs (path_join folder ''dacy'') [] = Inr inside" and "path \<in> set inside"
  shows "string_includes path (path_join folder ''dacy'')"
proof -
  from getAllFiles_under [OF dacy_clean assms(1)] assms(2)
  have "prefix (path_join folder ''dacy'' @ ''/'') path" by auto
  then show ?thesis by (rule prefix_string_includes)
qed

text \<open>
  C7: every file of the list that processImages works on has an extension which, in lower
  case, is one of .jpg, .jpeg, .png, .gif, .bmp; and no such file lies under the filtered
  folder: its path does not contain the path of that folder, does not start with it, and
  is not among the files found by walking that folder.
\<close>

theorem C7_scan_filters:
  assumes "image_paths depth fs folder = Inr paths" and "path \<in> set paths"
  shows "toLowerCase (path_extname path) \<in> {''.jpg'', ''.jpeg'', ''.png'', ''.gif'', ''.bmp''}
       \<and> \<not> string_includes path (path_join folder ''dacy'')
       \<and> \<not> prefix (path_join folder ''dacy'' @ ''/'') path
       \<and> (\<forall>k inside. getAllFiles k fs (path_join folder ''dacy'') [] = Inr inside
             \<longrightarrow> path \<notin> set inside)"
proof -
  from image_paths_selected [OF assms] have s: "selected folder path" .
  then have a: "toLowerCase (path_extname path) \<in> {''.jpg'', ''.jpeg'', ''.png'', ''.gif'', ''.bmp''}"
    and b: "\<not> string_includes path (path_join folder ''dacy'')"
    by (simp_all add: selected_def image_extensions_def)
  from b have c: "\<not> prefix (path_join folder ''dacy'' @ ''/'') path"
    using prefix_string_includes by blast
  from b have d: "\<forall>k inside. getAllFiles k fs (path_join folder ''dacy'') [] = Inr inside
      \<longrightarrow> path \<notin> set inside"
    using under_dacy_includes by blast
  from a b c d show ?thesis by blast
qed

lemma mixed_scan:
  "getAllFiles 64 (disk mixed_folder) ''imgs'' [] =
     Inr [''imgs/a.PNG'', ''imgs/notes.txt'', ''imgs/dacy/q.png'', ''imgs/dacy-old/c.png'',
          ''imgs/dacyX.png'', ''imgs/sub/b.jpeg'']"
  by (simp add: mixed_folder_def path_defs fs_defs getAllFiles_numeral)

lemma mixed_paths:
  "image_paths 64 (disk mixed_folder) ''imgs'' = Inr [''imgs/a.PNG'', ''imgs/sub/b.jpeg'']"
  by (simp add: image_paths_def mixed_scan selected_def image_extensions_def path_defs)

theorem C7_scan_filters_witness:
  "image_paths 64 (disk mixed_folder) ''imgs'' = Inr [''imgs/a.PNG'', ''imgs/sub/b.jpeg'']
   \<and> ''imgs/a.PNG'' \<in> set [''imgs/a.PNG'', ''imgs/sub/b.jpeg'']
   \<and> toLowerCase (path_extname ''imgs/a.PNG'') = ''.png''
   \<and> getAllFiles 64 (disk mixed_folder) (path_join ''imgs'' ''dacy'') [] = Inr [''imgs/dacy/q.png'']
   \<and> ''imgs/a.PNG'' \<notin> set [''imgs/dacy/q.png'']
   \<and> \<not> string_includes ''imgs/a.PNG'' (path_join ''imgs'' ''dacy'')"
proof -
  have m: "''imgs/a.PNG'' \<in> set [''imgs/a.PNG'', ''imgs/sub/b.jpeg'']" by simp
  have u: "getAllFiles 64 (disk mixed_folder) (path_join ''imgs'' ''dacy'') [] = Inr [''imgs/dacy/q.png'']"
    by (simp add: mixed_folder_def path_defs fs_defs getAllFiles_numeral)
  have e: "toLowerCase (path_extname ''imgs/a.PNG'') = ''.png''"
    by (simp add: path_defs)
  from C7_scan_filters [OF mixed_paths m] mixed_paths m u e show ?thesis by simp
qed


text \<open>
  C10: the exclusion is a substring test. Every path that contains the path of the
  filtered folder anywhere is left out of the list processImages works on, and no call
  of the run (OCR, metadata read, crop, copy, delete) has it as its subject. That covers
  files that are not under the filtered folder, such as an image in a sibling directory
  \<^verbatim>\<open>dacy-old\<close> or a file \<^verbatim>\<open>dacyX.png\<close> directly in the root.
\<close>

theorem C10_substring_exclusion:
  assumes "string_includes path (path_join folder ''dacy'')"
  shows "(\<forall>depth fs paths. image_paths depth fs folder = Inr paths \<longrightarrow> path \<notin> set paths)
       \<and> (\<forall>E w w' st. processImages E folder (path_join folder ''dacy'') w = Inr (w', st)
             \<longrightarrow> (\<forall>e \<in> set (events_since w w'). subject e \<noteq> Some path))"
proof -
  have a: "path \<notin> set paths" if "image_paths depth fs folder = Inr paths" for depth fs paths
    using image_paths_selected [OF that, of path] assms by (auto simp: selected_def)
  have b: "\<forall>e \<in> set (events_since w w'). subject e \<noteq> Some path"
    if r: "processImages E folder (path_join folder ''dacy'') w = Inr (w', st)" for E w w' st
  proof -
    from r obtain paths where p: "image_paths (stack_depth E) (disk w) folder = Inr paths"
      and f: "foldl (process_image E (path_join folder ''dacy''))
                (w, \<lparr>processed = 0, filtered = 0\<rparr>) paths = (w', st)"
      by (auto simp: processImages_def split: sum.splits)
    from run_trace [of E "path_join folder ''dacy''" w "\<lparr>processed = 0, filtered = 0\<rparr>" paths] f
    obtain evs where t: "trace w' = trace w @ evs"
      and s: "\<forall>e \<in> set evs. subject e = None \<or> (\<exists>p \<in> set paths. subject e = Some p)"
      by auto
    from t have "events_since w w' = evs" by (rule events_since_append)
    with s a [OF p] show ?thesis by auto
  qed
  from a b show ?thesis by blast
qed

lemma mixed_run:
  "processImages benign_env ''imgs'' (path_join ''imgs'' ''dacy'') mixed_folder
     = Inr (mixed_folder_processed, \<lparr>processed = 2, filtered = 0\<rparr>)"
  by (simp add: processImages_def benign_env_def mixed_paths)
     (simp add: benign_env_def mixed_folder_def mixed_folder_processed_def image_a_def image_b_def
        path_defs fs_defs prog_defs Let_def crop_decision_def)

theorem C10_substring_exclusion_witness:
  "string_includes ''imgs/dacy-old/c.png'' (path_join ''imgs'' ''dacy'')
   \<and> string_includes ''imgs/dacyX.png'' (path_join ''imgs'' ''dacy'')
   \<and> getAllFiles 64 (disk mixed_folder) ''imgs'' [] =
        Inr [''imgs/a.PNG'', ''imgs/notes.txt'', ''imgs/dacy/q.png'', ''imgs/dacy-old/c.png'',
             ''imgs/dacyX.png'', ''imgs/sub/b.jpeg'']
   \<and> \<not> prefix (path_join ''imgs'' ''dacy'' @ ''/'') ''imgs/dacy-old/c.png''
   \<and> \<not> prefix (path_join ''imgs'' ''dacy'' @ ''/'') ''imgs/dacyX.png''
   \<and> image_paths 64 (disk mixed_folder) ''imgs'' = Inr [''imgs/a.PNG'', ''imgs/sub/b.jpeg'']
   \<and> processImages benign_env ''imgs'' (path_join ''imgs'' ''dacy'') mixed_folder
        = Inr (mixed_folder_processed, \<lparr>processed = 2, filtered = 0\<rparr>)
   \<and> Some ''imgs/dacy-old/c.png''
        \<notin> set (map subject (events_since mixed_folder mixed_folder_processed))
   \<and> Some ''imgs/dacyX.png''
        \<notin> set (map subject (events_since mixed_folder mixed_folder_processed))"
proof -
  have h1: "string_includes ''imgs/dacy-old/c.png'' (path_join ''imgs'' ''dacy'')"
    by (simp add: path_defs)
  have h2: "string_includes ''imgs/dacyX.png'' (path_join ''imgs'' ''dacy'')"
    by (simp add: path_defs)
  have n1: "\<not> prefix (path_join ''imgs'' ''dacy'' @ ''/'') ''imgs/dacy-old/c.png''"
    by (simp add: path_defs)
  have n2: "\<not> prefix (path_join ''imgs'' ''dacy'' @ ''/'') ''imgs/dacyX.png''"
    by (simp add: path_defs)
  from C10_substring_exclusion [OF h1] mixed_run
  have e1: "\<forall>e \<in> set (events_since mixed_folder mixed_folder_processed).
      subject e \<noteq> Some ''imgs/dacy-old/c.png''" by blast
  from C10_substring_exclusion [OF h2] mixed_run
  have e2: "\<forall>e \<in> set (events_since mixed_folder mixed_folder_processed).
      subject e \<noteq> Some ''imgs/dacyX.png''" by blast
  from e1 have f1: "Some ''imgs/dacy-old/c.png''
      \<notin> set (map subject (events_since mixed_folder mixed_folder_processed))" by auto
  from e2 have f2: "Some ''imgs/dacyX.png''
      \<notin> set (map subject (events_since mixed_folder mixed_folder_processed))" by auto
  from h1 h2 n1 n2 f1 f2 mixed_scan mixed_paths mixed_run show ?thesis by blast
qed











end
